theory Spec2Isabelle
  imports Main
begin

section \<open>Strings of the host language\<close>

text \<open>
  The rule works on JavaScript strings. They are modelled as \<^typ>\<open>string\<close>, a character
  standing for the code point of the same number, so the embedding covers the texts
  whose code points are below 256. On that range the character predicates of
  ECMAScript are the ones below.
\<close>

definition code :: "char \<Rightarrow> nat" where
  "code c = of_char c"

text \<open>WhiteSpace and LineTerminator: what \<open>\s\<close> matches and what \<open>trim\<close> removes.\<close>

definition isWhiteSpace :: "char \<Rightarrow> bool" where
  "isWhiteSpace c = (code c \<in> {9, 10, 11, 12, 13, 32, 160})"

text \<open>The word characters of \<open>\w\<close> and \<open>\b\<close>: letters, digits, underscore.\<close>

definition isWordChar :: "char \<Rightarrow> bool" where
  "isWordChar c =
     (let n = code c
      in (48 \<le> n \<and> n \<le> 57) \<or> (65 \<le> n \<and> n \<le> 90) \<or> n = 95 \<or> (97 \<le> n \<and> n \<le> 122))"

definition isDigit :: "char \<Rightarrow> bool" where
  "isDigit c = (48 \<le> code c \<and> code c \<le> 57)"

definition isLineTerminator :: "char \<Rightarrow> bool" where
  "isLineTerminator c = (code c \<in> {10, 13})"

text \<open>
  Canonicalize of the pattern semantics: with the flag \<open>i\<close> (and \<open>u\<close>) a character is
  compared through its simple case folding, which on this range sends the capital
  letters to the small ones; without it, characters are compared as they are.
\<close>

definition canonicalize :: "bool \<Rightarrow> char \<Rightarrow> char" where
  "canonicalize ic c =
     (let n = code c
      in if ic \<and> ((65 \<le> n \<and> n \<le> 90) \<or> (192 \<le> n \<and> n \<le> 222 \<and> n \<noteq> 215))
         then char_of (n + 32) else c)"

text \<open>\<open>String.prototype.trim\<close>.\<close>

definition trim :: "string \<Rightarrow> string" where
  "trim s = rev (dropWhile isWhiteSpace (rev (dropWhile isWhiteSpace s)))"

text \<open>\<open>s.indexOf(p) === 0\<close>: the string starts with \<open>p\<close>.\<close>

definition indexOf_is_0 :: "string \<Rightarrow> string \<Rightarrow> bool" where
  "indexOf_is_0 s p = (take (length p) s = p)"

section \<open>Regular expressions\<close>

text \<open>
  The patterns that the rule builds are concatenations of fixed pieces and of a
  configured term. A pattern is a list of alternatives. The alternatives that the rule
  writes itself, and those of a term without groups, classes in brackets or braces, are
  lists of items, an item being an assertion or a quantified one-character atom; their
  matching is defined here. What the engine does with any other alternative is not
  defined here: it is a parameter of the model (see \<open>host\<close> below), and such an
  alternative is kept as the matcher that the parameter gives for it.
\<close>

datatype char_class = Space | WordCh | Digit

datatype atom = Lit char | Dot | Class char_class bool

datatype assertion = Bol | Eol | WordB | NotWordB

datatype quant = One | Opt | Star | Plus

datatype item = Assert assertion | Atom atom quant bool

text \<open>
  A matcher maps a state, the text before a position and the text from it on, to the
  states a match from there can end in, the first to be tried first.
\<close>

type_synonym matcher = "string \<times> string \<Rightarrow> (string \<times> string) list"

datatype alternative = Items "item list" | Beyond matcher

record regexp =
  alts :: "alternative list"
  ignoreCase :: bool

fun in_class :: "char_class \<Rightarrow> char \<Rightarrow> bool" where
  "in_class Space d = isWhiteSpace d"
| "in_class WordCh d = isWordChar d"
| "in_class Digit d = isDigit d"

text \<open>One character against an atom; the flag of \<^const>\<open>Class\<close> says that the class is negated.\<close>

fun atom_matches :: "bool \<Rightarrow> atom \<Rightarrow> char \<Rightarrow> bool" where
  "atom_matches ic (Lit c) d = (canonicalize ic c = canonicalize ic d)"
| "atom_matches ic Dot d = (\<not> isLineTerminator d)"
| "atom_matches ic (Class k neg) d = (in_class k d \<noteq> neg)"

text \<open>
  The matcher's state is the text before the current position and the text from it on.
  A word boundary is a position with a word character on exactly one side.
\<close>

definition at_boundary :: "string \<Rightarrow> string \<Rightarrow> bool" where
  "at_boundary l r = ((l \<noteq> [] \<and> isWordChar (last l)) \<noteq> (r \<noteq> [] \<and> isWordChar (hd r)))"

fun assertion_holds :: "assertion \<Rightarrow> string \<Rightarrow> string \<Rightarrow> bool" where
  "assertion_holds Bol l r = (l = [])"
| "assertion_holds Eol l r = (r = [])"
| "assertion_holds WordB l r = at_boundary l r"
| "assertion_holds NotWordB l r = (\<not> at_boundary l r)"

text \<open>
  Every matcher returns the states it can end in, in the order in which backtracking
  tries them: a greedy quantifier tries the longest repetition first, a lazy one the
  shortest.
\<close>

definition step :: "bool \<Rightarrow> atom \<Rightarrow> string \<Rightarrow> string \<Rightarrow> (string \<times> string) list" where
  "step ic a l r =
     (case r of [] \<Rightarrow> [] | d # r' \<Rightarrow> if atom_matches ic a d then [(l @ [d], r')] else [])"

fun repeat :: "bool \<Rightarrow> atom \<Rightarrow> bool \<Rightarrow> string \<Rightarrow> string \<Rightarrow> (string \<times> string) list" where
  "repeat ic a g l [] = [(l, [])]"
| "repeat ic a g l (d # r) =
     (if atom_matches ic a d
      then (if g then repeat ic a g (l @ [d]) r @ [(l, d # r)]
            else (l, d # r) # repeat ic a g (l @ [d]) r)
      else [(l, d # r)])"

fun m_item :: "bool \<Rightarrow> item \<Rightarrow> string \<times> string \<Rightarrow> (string \<times> string) list" where
  "m_item ic (Assert a) (l, r) = (if assertion_holds a l r then [(l, r)] else [])"
| "m_item ic (Atom a One g) (l, r) = step ic a l r"
| "m_item ic (Atom a Opt g) (l, r) =
     (if g then step ic a l r @ [(l, r)] else (l, r) # step ic a l r)"
| "m_item ic (Atom a Star g) (l, r) = repeat ic a g l r"
| "m_item ic (Atom a Plus g) (l, r) =
     concat (map (\<lambda>(l', r'). repeat ic a g l' r') (step ic a l r))"

fun m_items :: "bool \<Rightarrow> item list \<Rightarrow> string \<times> string \<Rightarrow> (string \<times> string) list" where
  "m_items ic [] st = [st]"
| "m_items ic (it # its) st = concat (map (m_items ic its) (m_item ic it st))"

fun m_alt :: "bool \<Rightarrow> alternative \<Rightarrow> matcher" where
  "m_alt ic (Items its) st = m_items ic its st"
| "m_alt ic (Beyond f) st = f st"

definition m_alts :: "regexp \<Rightarrow> matcher" where
  "m_alts re st = concat (map (\<lambda>a. m_alt (ignoreCase re) a st) (alts re))"

text \<open>
  \<open>exec\<close>: the first position from which the pattern matches, with the first end state
  found there. The result is the text before the match and the text after it.
\<close>

fun exec_from :: "regexp \<Rightarrow> string \<Rightarrow> string \<Rightarrow> (string \<times> string) option" where
  "exec_from re l [] = (case m_alts re (l, []) of [] \<Rightarrow> None | (l', r') # _ \<Rightarrow> Some (l, r'))"
| "exec_from re l (d # r) =
     (case m_alts re (l, d # r) of
        [] \<Rightarrow> exec_from re (l @ [d]) r
      | (l', r') # _ \<Rightarrow> Some (l, r'))"

definition regexp_exec :: "regexp \<Rightarrow> string \<Rightarrow> (string \<times> string) option" where
  "regexp_exec re s = exec_from re [] s"

text \<open>\<open>re.test(s)\<close> for a pattern without the flags \<open>g\<close> and \<open>y\<close>.\<close>

definition regexp_test :: "regexp \<Rightarrow> string \<Rightarrow> bool" where
  "regexp_test re s = (regexp_exec re s \<noteq> None)"

text \<open>\<open>s.replace(re, '')\<close>: the first match is removed.\<close>

definition replace_empty :: "string \<Rightarrow> regexp \<Rightarrow> string" where
  "replace_empty s re = (case regexp_exec re s of None \<Rightarrow> s | Some (l, r) \<Rightarrow> l @ r)"

subsection \<open>Reading a pattern\<close>

datatype error = TypeError | SyntaxError | ManifestError

datatype token = TChar char | TEsc char | TMeta char

text \<open>The backslash cannot stand in a string literal: a piece \<open>\x...\<close> of a pattern is
  written \<open>esc ''x...''\<close>.\<close>

abbreviation backslash :: char where
  "backslash \<equiv> CHR 0x5C"

abbreviation esc :: "string \<Rightarrow> string" where
  "esc s \<equiv> backslash # s"

definition isSyntaxChar :: "char \<Rightarrow> bool" where
  "isSyntaxChar c = (c = backslash \<or> c \<in> set ''^$.*+?()[]{}|'')"

fun lex :: "string \<Rightarrow> token list option" where
  "lex [] = Some []"
| "lex (c # cs) =
     (if c = backslash
      then (case cs of [] \<Rightarrow> None | e # r \<Rightarrow> map_option ((#) (TEsc e)) (lex r))
      else map_option ((#) (if isSyntaxChar c then TMeta c else TChar c)) (lex cs))"

text \<open>The text that tokens were read from.\<close>

fun unlex :: "token list \<Rightarrow> string" where
  "unlex [] = []"
| "unlex (TChar c # ts) = c # unlex ts"
| "unlex (TMeta c # ts) = c # unlex ts"
| "unlex (TEsc e # ts) = backslash # e # unlex ts"

text \<open>
  A pattern is cut into its alternatives at the bars that stand in no group and in no
  class. \<open>split_top depth cls\<close> does so for tokens read at the given depth of
  groups, inside a class (\<open>cls\<close>) or not: a bracket opens a class, which the next closing
  bracket ends, and inside it no character has a meaning; parentheses open and close
  groups. A parenthesis that closes nothing, and a group or class that is not closed,
  make the text no pattern.
\<close>

definition cons_first :: "'a \<Rightarrow> 'a list list \<Rightarrow> 'a list list" where
  "cons_first t ps = (case ps of [] \<Rightarrow> [[t]] | a # as \<Rightarrow> (t # a) # as)"

fun split_top :: "nat \<Rightarrow> bool \<Rightarrow> token list \<Rightarrow> token list list option" where
  "split_top depth cls [] = (if depth = 0 \<and> \<not> cls then Some [[]] else None)"
| "split_top depth cls (t # ts) =
     (if cls
      then map_option (cons_first t) (split_top depth (t \<noteq> TMeta (CHR '']'')) ts)
      else if t = TMeta (CHR ''['') then map_option (cons_first t) (split_top depth True ts)
      else if t = TMeta (CHR ''('')
      then map_option (cons_first t) (split_top (Suc depth) False ts)
      else if t = TMeta (CHR '')'')
      then (case depth of
              0 \<Rightarrow> None
            | Suc d \<Rightarrow> map_option (cons_first t) (split_top d False ts))
      else if t = TMeta (CHR ''|'') \<and> depth = 0 then map_option ((#) []) (split_top 0 False ts)
      else map_option (cons_first t) (split_top depth False ts))"

text \<open>
  The atom or assertion a token stands for, for the tokens of the alternatives whose
  matching is defined here: the assertions \<open>^ $ \b \B\<close>, the dot, the classes
  \<open>\s \S \w \W \d \D\<close>, an escaped syntax character or slash, and any character that
  is not a syntax character.
\<close>

definition tok_atom :: "token \<Rightarrow> (assertion + atom) option" where
  "tok_atom t =
     (case t of
        TChar c \<Rightarrow> Some (Inr (Lit c))
      | TMeta c \<Rightarrow>
          (if c = CHR ''^'' then Some (Inl Bol)
           else if c = CHR ''$'' then Some (Inl Eol)
           else if c = CHR ''.'' then Some (Inr Dot)
           else None)
      | TEsc e \<Rightarrow>
          (if e = CHR ''b'' then Some (Inl WordB)
           else if e = CHR ''B'' then Some (Inl NotWordB)
           else if e = CHR ''s'' then Some (Inr (Class Space False))
           else if e = CHR ''S'' then Some (Inr (Class Space True))
           else if e = CHR ''w'' then Some (Inr (Class WordCh False))
           else if e = CHR ''W'' then Some (Inr (Class WordCh True))
           else if e = CHR ''d'' then Some (Inr (Class Digit False))
           else if e = CHR ''D'' then Some (Inr (Class Digit True))
           else if isSyntaxChar e \<or> e = CHR ''/'' then Some (Inr (Lit e))
           else None))"

definition quant_of :: "token \<Rightarrow> quant option" where
  "quant_of t =
     (if t = TMeta (CHR ''*'') then Some Star
      else if t = TMeta (CHR ''+'') then Some Plus
      else if t = TMeta (CHR ''?'') then Some Opt
      else None)"

text \<open>The quantifier at the head of the tokens, if any, whether it is greedy, and the rest.\<close>

fun take_quant :: "token list \<Rightarrow> quant \<times> bool \<times> token list" where
  "take_quant [] = (One, True, [])"
| "take_quant (t # ts) =
     (case quant_of t of
        None \<Rightarrow> (One, True, t # ts)
      | Some q \<Rightarrow>
          (case ts of
             [] \<Rightarrow> (q, True, [])
           | t' # ts' \<Rightarrow> if t' = TMeta (CHR ''?'') then (q, False, ts') else (q, True, ts)))"

function parse_alt :: "token list \<Rightarrow> item list option" where
  "parse_alt [] = Some []"
| "parse_alt (t # ts) =
     (case tok_atom t of
        None \<Rightarrow> None
      | Some (Inl a) \<Rightarrow> map_option ((#) (Assert a)) (parse_alt ts)
      | Some (Inr a) \<Rightarrow>
          (case take_quant ts of
             (q, g, ts') \<Rightarrow> map_option ((#) (Atom a q g)) (parse_alt ts')))"
  by pat_completeness auto

termination
proof (relation "measure length")
  show "wf (measure length)" by simp
next
  fix t :: token and ts x2 a
  show "(ts, t # ts) \<in> measure length" by simp
next
  fix t :: token and ts :: "token list" and x2 b x y xa ya
  assume "(x, y) = take_quant ts" "(xa, ya) = y"
  then have "ya = snd (snd (take_quant ts))" by (metis snd_conv)
  moreover have "length (snd (snd (take_quant ts))) \<le> length ts"
    by (cases ts) (auto split: option.splits list.splits)
  ultimately show "(ya, t # ts) \<in> measure length" by simp
qed

text \<open>
  The engine's part that is not defined here. For an alternative that \<^const>\<open>parse_alt\<close>
  does not read, \<open>host before after alt ic\<close> is \<open>None\<close> when \<open>alt\<close> is not an alternative
  of the pattern language, and else the matcher of \<open>alt\<close> under the flags \<open>u\<close> and, when
  \<open>ic\<close> is set, \<open>i\<close>. The numbers and names of the groups of an alternative, and the
  groups it may refer to, depend on the groups of the whole pattern: \<open>before\<close> and
  \<open>after\<close> are the other alternatives of the pattern in which a parenthesis occurs, those
  before \<open>alt\<close> and those after it. Nothing is assumed of \<open>host\<close>: what is proved holds
  for every engine.
\<close>

type_synonym host = "string list \<Rightarrow> string list \<Rightarrow> string \<Rightarrow> bool \<Rightarrow> matcher option"

definition has_group :: "token list \<Rightarrow> bool" where
  "has_group p = (TMeta (CHR ''('') \<in> set p)"

definition read_alt ::
  "host \<Rightarrow> bool \<Rightarrow> token list list \<Rightarrow> token list list \<Rightarrow> token list \<Rightarrow> alternative option" where
  "read_alt host ic before after p =
     (case parse_alt p of
        Some its \<Rightarrow> Some (Items its)
      | None \<Rightarrow>
          map_option Beyond
            (host (map unlex (filter has_group before)) (map unlex (filter has_group after))
               (unlex p) ic))"

fun read_alts ::
  "host \<Rightarrow> bool \<Rightarrow> token list list \<Rightarrow> token list list \<Rightarrow> alternative list option" where
  "read_alts host ic before [] = Some []"
| "read_alts host ic before (p # ps) =
     (case read_alt host ic before ps p of
        None \<Rightarrow> None
      | Some a \<Rightarrow> map_option ((#) a) (read_alts host ic (before @ [p]) ps))"

definition compile :: "host \<Rightarrow> bool \<Rightarrow> string \<Rightarrow> alternative list option" where
  "compile host ic src =
     (case lex src of
        None \<Rightarrow> None
      | Some ts \<Rightarrow>
          (case split_top 0 False ts of
             None \<Rightarrow> None
           | Some ps \<Rightarrow> read_alts host ic [] ps))"

text \<open>
  \<open>new RegExp(src, flags)\<close>, the flag \<open>u\<close> always set: a text that is not a pattern
  throws a SyntaxError. The text is a pattern when its groups and classes are closed and
  each of its alternatives is one: those read by \<^const>\<open>parse_alt\<close> are, the others are
  or are not as the engine says.
\<close>

definition RegExp_new :: "host \<Rightarrow> string \<Rightarrow> bool \<Rightarrow> error + regexp" where
  "RegExp_new host src ic =
     (case compile host ic src of
        None \<Rightarrow> Inl SyntaxError
      | Some a \<Rightarrow> Inr \<lparr>alts = a, ignoreCase = ic\<rparr>)"

section \<open>Values of the manifest\<close>

text \<open>
  What \<open>readPkgUp.sync()\<close> returns is data read from a JSON file. Numbers are only
  tested for being zero, so they are integers here; an object is the list of its own
  properties, each key once.
\<close>

datatype jsval =
    JUndefined
  | JNull
  | JBool bool
  | JNum int
  | JStr string
  | JArr "jsval list"
  | JObj "(string \<times> jsval) list"

text \<open>The truth value of a value in a condition.\<close>

fun truthy :: "jsval \<Rightarrow> bool" where
  "truthy JUndefined = False"
| "truthy JNull = False"
| "truthy (JBool b) = b"
| "truthy (JNum n) = (n \<noteq> 0)"
| "truthy (JStr s) = (s \<noteq> [])"
| "truthy (JArr xs) = True"
| "truthy (JObj kvs) = True"

fun typeof_string :: "jsval \<Rightarrow> bool" where
  "typeof_string (JStr s) = True"
| "typeof_string v = False"

text \<open>
  \<open>v.k\<close> for the property names the rule reads (\<open>packageJson\<close>, \<open>bugs\<close>, \<open>repository\<close>,
  \<open>resolutions\<close>, \<open>url\<close>), none of which a string, number, boolean or array has:
  reading a property of \<open>undefined\<close> or \<open>null\<close> throws a TypeError, a property that
  is not there is \<open>undefined\<close>.
\<close>

fun get_prop :: "jsval \<Rightarrow> string \<Rightarrow> error + jsval" where
  "get_prop JUndefined k = Inl TypeError"
| "get_prop JNull k = Inl TypeError"
| "get_prop (JObj kvs) k = Inr (case map_of kvs k of None \<Rightarrow> JUndefined | Some v \<Rightarrow> v)"
| "get_prop v k = Inr JUndefined"

definition bind :: "error + 'a \<Rightarrow> ('a \<Rightarrow> error + 'b) \<Rightarrow> error + 'b" where
  "bind m f = (case m of Inl e \<Rightarrow> Inl e | Inr v \<Rightarrow> f v)"

section \<open>The libraries the rule calls\<close>

text \<open>
  \<open>escapeRegExp\<close> of lodash puts a backslash before each of the characters
  \<open>^ $ \ . * + ? ( ) [ ] { } |\<close>.
\<close>

definition escapeRegExp :: "string \<Rightarrow> string" where
  "escapeRegExp s = concat (map (\<lambda>c. if isSyntaxChar c then [backslash, c] else [c]) s)"

text \<open>The marker that \<open>ellipsize\<close> puts after a text it has cut.\<close>

definition truncation_marker :: string where
  "truncation_marker = ''...''"

text \<open>
  Modelled from the spec: \<open>ellipsize\<close> is a package the rule depends on, and its code is
  not among the sources. The spec says of it that the text is "truncated to at most 60
  characters (with an ellipsis marker when truncated)", that a text longer than the bound
  gives one "whose non-marker portion is exactly 60 characters, with a truncation marker
  appended", and that a text "of exactly 60 characters or fewer is returned
  unmodified". The spec does not name the marker.
\<close>

definition ellipsize :: "string \<Rightarrow> nat \<Rightarrow> string" where
  "ellipsize str mx = (if length str \<le> mx then str else take mx str @ truncation_marker)"

section \<open>The rule\<close>

datatype comment_type = Line | Block | Shebang

record node =
  node_type :: comment_type
  node_value :: string

definition isDirectiveComment :: "node \<Rightarrow> bool" where
  "isDirectiveComment nd =
     (let comment = trim (node_value nd)
      in (node_type nd = Line \<and> indexOf_is_0 comment ''eslint-'') \<or>
         (node_type nd = Block \<and>
            (indexOf_is_0 comment ''global '' \<or>
             indexOf_is_0 comment ''eslint '' \<or>
             indexOf_is_0 comment ''eslint-'')))"

text \<open>
  \<open>getRepoUrl\<close>. Its argument is the outcome of \<open>readPkgUp.sync()\<close>: the value it returns
  (\<open>undefined\<close> when there is no manifest), or the error it throws.
\<close>

definition getRepoUrl :: "error + jsval \<Rightarrow> error + jsval" where
  "getRepoUrl pkgUp =
     bind pkgUp (\<lambda>res.
     bind (get_prop res ''packageJson'') (\<lambda>packageJson.
     bind (get_prop packageJson ''bugs'') (\<lambda>bugs.
     bind (if truthy bugs then get_prop bugs ''url'' else Inr JUndefined) (\<lambda>bugs_url.
       if truthy bugs \<and> typeof_string bugs then Inr bugs
       else if truthy bugs \<and> truthy bugs_url then Inr bugs_url
       else
         bind (get_prop packageJson ''repository'') (\<lambda>repository.
           if truthy repository then
             if typeof_string repository then Inr repository
             else
               bind (get_prop packageJson ''resolutions'') (\<lambda>resolutions.
               bind (get_prop resolutions ''url'') (\<lambda>resolutions_url.
                 if truthy resolutions_url then get_prop repository ''url''
                 else Inr JUndefined))
           else Inr JUndefined)))))"

datatype match_location = Start | Anywhere

record configuration =
  terms :: "string list option"
  location :: "match_location option"
  url :: "string option"

text \<open>The patterns written as literals in the source, as they are read.\<close>

definition lit :: "char \<Rightarrow> item" where
  "lit c = Atom (Lit c) One True"

text \<open>\<open>/\bno-warning-comments\b/u\<close>\<close>

definition selfConfigRegEx :: regexp where
  "selfConfigRegEx =
     \<lparr>alts = [Items (Assert WordB # map lit ''no-warning-comments'' @ [Assert WordB])],
      ignoreCase = False\<rparr>"

text \<open>\<open>/\w$/u\<close> and \<open>/^\w/u\<close>\<close>

definition re_word_at_end :: regexp where
  "re_word_at_end =
     \<lparr>alts = [Items [Atom (Class WordCh False) One True, Assert Eol]], ignoreCase = False\<rparr>"

definition re_word_at_start :: regexp where
  "re_word_at_start =
     \<lparr>alts = [Items [Assert Bol, Atom (Class WordCh False) One True]], ignoreCase = False\<rparr>"

definition suffix_rule :: "string \<Rightarrow> string" where
  "suffix_rule term = (if regexp_test re_word_at_end term then esc ''b'' else []) @ '':?''"

definition prefix_rule :: "match_location \<Rightarrow> string \<Rightarrow> string" where
  "prefix_rule loc term =
     (if loc = Start then ''^'' @ esc ''s*''
      else if regexp_test re_word_at_start term then esc ''b''
      else [])"

text \<open>The text of the pattern that \<open>convertToRegExp\<close> hands to \<open>new RegExp\<close>.\<close>

definition pattern_source :: "match_location \<Rightarrow> string \<Rightarrow> string" where
  "pattern_source loc term =
     (let escaped = escapeRegExp term;
          wordBoundary = esc ''b'';
          eitherOrWordBoundary = ''|'' @ wordBoundary;
          suffix = suffix_rule term;
          prefix = prefix_rule loc term
      in if loc = Start then prefix @ escaped @ suffix
         else prefix @ escaped @ suffix @ eitherOrWordBoundary @ term @ wordBoundary)"

definition convertToRegExp :: "host \<Rightarrow> match_location \<Rightarrow> string \<Rightarrow> error + regexp" where
  "convertToRegExp host loc term = RegExp_new host (pattern_source loc term) True"

text \<open>\<open>xs.map(f)\<close> for an \<open>f\<close> that may throw: the first error ends it.\<close>

fun map_err :: "('a \<Rightarrow> error + 'b) \<Rightarrow> 'a list \<Rightarrow> error + 'b list" where
  "map_err f [] = Inr []"
| "map_err f (x # xs) = bind (f x) (\<lambda>y. bind (map_err f xs) (\<lambda>ys. Inr (y # ys)))"

text \<open>What \<open>create\<close> computes once and its closures share.\<close>

record engine =
  warningRegExps :: "regexp list"
  repoUrlRegEx :: "regexp option"

text \<open>\<open>configuration.url || getRepoUrl()\<close>\<close>

definition resolveRepoUrl :: "configuration \<Rightarrow> error + jsval \<Rightarrow> error + jsval" where
  "resolveRepoUrl configuration pkgUp =
     (case url configuration of
        Some u \<Rightarrow> if u \<noteq> [] then Inr (JStr u) else getRepoUrl pkgUp
      | None \<Rightarrow> getRepoUrl pkgUp)"

text \<open>
  \<open>repoUrl ? new RegExp(escapeRegExp(repoUrl.trim()), 'iu') : undefined\<close>: a value that is
  not a string has no \<open>trim\<close>, and calling it throws.
\<close>

definition makeRepoUrlRegEx :: "host \<Rightarrow> jsval \<Rightarrow> error + regexp option" where
  "makeRepoUrlRegEx host repoUrl =
     (if truthy repoUrl then
        (case repoUrl of
           JStr s \<Rightarrow> bind (RegExp_new host (escapeRegExp (trim s)) True) (\<lambda>re. Inr (Some re))
         | _ \<Rightarrow> Inl TypeError)
      else Inr None)"

definition default_configuration :: configuration where
  "default_configuration = \<lparr>terms = None, location = None, url = None\<rparr>"

definition create :: "host \<Rightarrow> configuration option \<Rightarrow> error + jsval \<Rightarrow> error + engine" where
  "create host options pkgUp =
     (let configuration = (case options of Some c \<Rightarrow> c | None \<Rightarrow> default_configuration);
          warningTerms = (case terms configuration of Some ts \<Rightarrow> ts
                          | None \<Rightarrow> [''todo'', ''fixme'', ''xxx'']);
          loc = (case location configuration of Some l \<Rightarrow> l | None \<Rightarrow> Start)
      in bind (resolveRepoUrl configuration pkgUp) (\<lambda>repoUrl.
         bind (makeRepoUrlRegEx host repoUrl) (\<lambda>urlRegEx.
         bind (map_err (convertToRegExp host loc) warningTerms) (\<lambda>regexps.
           Inr \<lparr>warningRegExps = regexps, repoUrlRegEx = urlRegEx\<rparr>))))"

definition commentHasIssue :: "engine \<Rightarrow> string \<Rightarrow> bool" where
  "commentHasIssue eng comment =
     (case repoUrlRegEx eng of None \<Rightarrow> False | Some re \<Rightarrow> regexp_test re comment)"

text \<open>The loop of \<open>getUndocumentedTodoMessage\<close>; \<open>None\<close> is its \<open>false\<close>.\<close>

fun firstUndocumented :: "engine \<Rightarrow> regexp list \<Rightarrow> string \<Rightarrow> string option" where
  "firstUndocumented eng [] comment = None"
| "firstUndocumented eng (regex # rest) comment =
     (if regexp_test regex comment \<and> \<not> commentHasIssue eng comment
      then (let fullMessage = replace_empty comment regex
            in Some (ellipsize (trim fullMessage) 60))
      else firstUndocumented eng rest comment)"

definition getUndocumentedTodoMessage :: "engine \<Rightarrow> string \<Rightarrow> string option" where
  "getUndocumentedTodoMessage eng comment = firstUndocumented eng (warningRegExps eng) comment"

text \<open>\<open>checkComment\<close>: the message it reports, if it reports. An empty string is false.\<close>

definition checkComment :: "engine \<Rightarrow> node \<Rightarrow> string option" where
  "checkComment eng nd =
     (if isDirectiveComment nd \<and> regexp_test selfConfigRegEx (node_value nd) then None
      else (case getUndocumentedTodoMessage eng (node_value nd) of
              None \<Rightarrow> None
            | Some todoMessage \<Rightarrow>
                if todoMessage \<noteq> [] then Some (''Undocumented TODO: '' @ todoMessage)
                else None))"

text \<open>The visitor of \<open>Program\<close>: every comment but the shebang is checked.\<close>

definition Program :: "engine \<Rightarrow> node list \<Rightarrow> (node \<times> string) list" where
  "Program eng comments =
     concat (map (\<lambda>nd. case checkComment eng nd of None \<Rightarrow> [] | Some m \<Rightarrow> [(nd, m)])
       (filter (\<lambda>token. node_type token \<noteq> Shebang) comments))"

text \<open>How the host runs the rule on the comments of a file.\<close>

definition run_rule ::
  "host \<Rightarrow> configuration option \<Rightarrow> error + jsval \<Rightarrow> node list \<Rightarrow> error + (node \<times> string) list" where
  "run_rule host options pkgUp comments =
     bind (create host options pkgUp) (\<lambda>eng. Inr (Program eng comments))"

section \<open>Notions the properties are stated with\<close>

text \<open>
  \<open>ci_prefix ic t r\<close>: the text \<open>r\<close> starts with \<open>t\<close>, up to the case of letters when
  \<open>ic\<close> is set.
\<close>

definition ci_prefix :: "bool \<Rightarrow> string \<Rightarrow> string \<Rightarrow> bool" where
  "ci_prefix ic t r = (map (canonicalize ic) t = take (length t) (map (canonicalize ic) r))"

text \<open>
  A property of every position of a text, or of some position: the position is given
  as the text before it and the text from it on.
\<close>

fun all_splits :: "(string \<Rightarrow> string \<Rightarrow> bool) \<Rightarrow> string \<Rightarrow> string \<Rightarrow> bool" where
  "all_splits P l [] = P l []"
| "all_splits P l (d # r) = (P l (d # r) \<and> all_splits P (l @ [d]) r)"

fun ex_split :: "(string \<Rightarrow> string \<Rightarrow> bool) \<Rightarrow> string \<Rightarrow> string \<Rightarrow> bool" where
  "ex_split P l [] = P l []"
| "ex_split P l (d # r) = (P l (d # r) \<or> ex_split P (l @ [d]) r)"

text \<open>The text contains \<open>t\<close>, up to the case of letters.\<close>

definition contains_ci :: "string \<Rightarrow> string \<Rightarrow> bool" where
  "contains_ci s t = ex_split (\<lambda>l r. ci_prefix True t r) [] s"

definition word_before :: "string \<Rightarrow> bool" where
  "word_before l = (l \<noteq> [] \<and> isWordChar (last l))"

definition word_after :: "string \<Rightarrow> bool" where
  "word_after r = (r \<noteq> [] \<and> isWordChar (hd r))"

text \<open>
  The text contains the token \<open>t\<close>: \<open>t\<close> as it is written, with no word character
  next to it on either side.
\<close>

definition contains_token :: "string \<Rightarrow> string \<Rightarrow> bool" where
  "contains_token s t =
     ex_split (\<lambda>l r. ci_prefix False t r \<and> \<not> word_before l \<and> \<not> word_after (drop (length t) r)) [] s"

text \<open>
  The term \<open>t\<close>, a word, occurs in the text only inside longer words: wherever it
  occurs (up to the case of letters), a word character stands right before or right
  after it.
\<close>

definition only_inside_longer_words :: "string \<Rightarrow> string \<Rightarrow> bool" where
  "only_inside_longer_words s t =
     (t \<noteq> [] \<and> list_all isWordChar t \<and>
      all_splits (\<lambda>l r. if ci_prefix True t r
                         then word_before l \<or> word_after (drop (length t) r)
                         else True) [] s)"

section \<open>The patterns and the options, as the proofs name them\<close>

text \<open>The token that \<open>escapeRegExp\<close> makes of a character, and the bar between alternatives.\<close>

definition lit_tok :: "char \<Rightarrow> token" where
  "lit_tok c = (if isSyntaxChar c then TEsc c else TChar c)"

text \<open>The tokens do not start with a quantifier.\<close>

definition no_quant :: "token list \<Rightarrow> bool" where
  "no_quant ts = (case ts of [] \<Rightarrow> True | t # _ \<Rightarrow> quant_of t = None)"

definition bar :: token where
  "bar = TMeta (CHR ''|'')"

text \<open>Tokens with no parenthesis, no opening bracket and no bar: one alternative, with no
  group and no class.\<close>

definition plain :: "token list \<Rightarrow> bool" where
  "plain ts =
     (set ts \<inter> {TMeta (CHR ''(''), TMeta (CHR '')''), TMeta (CHR ''[''), TMeta (CHR ''|'')} = {})"

text \<open>
  The items of the suffix rule and of the prefix rule, and the two alternatives the rule
  builds from a term: the one with the rules around the escaped term, and the term
  between two word boundaries.
\<close>

definition suffix_items :: "string \<Rightarrow> item list" where
  "suffix_items t = (if word_before t then [Assert WordB] else []) @ [Atom (Lit (CHR '':'')) Opt True]"

definition prefix_items :: "match_location \<Rightarrow> string \<Rightarrow> item list" where
  "prefix_items loc t =
     (if loc = Start then [Assert Bol, Atom (Class Space False) Star True]
      else if word_after t then [Assert WordB]
      else [])"

definition boundary_aware :: "match_location \<Rightarrow> string \<Rightarrow> item list" where
  "boundary_aware loc t = prefix_items loc t @ map lit t @ suffix_items t"

definition whole_word :: "string \<Rightarrow> item list" where
  "whole_word t = Assert WordB # map lit t @ [Assert WordB]"

text \<open>
  An engine for the examples. Beyond the alternatives defined here it takes the one
  alternative \<open>\b(todo)\b\<close>, and matches it as the pattern language says: the group
  holds the letters of \<open>todo\<close>, between two word boundaries. Only the example of
  claim C7 asks it anything.
\<close>

definition todo_host :: host where
  "todo_host before after alt ic =
     (if alt = esc ''b(todo)'' @ esc ''b'' then Some (m_items ic (whole_word ''todo'')) else None)"

text \<open>\<open>context.options[0] || {}\<close>, and the terms and the location with their defaults.\<close>

definition effective_configuration :: "configuration option \<Rightarrow> configuration" where
  "effective_configuration options = (case options of Some c \<Rightarrow> c | None \<Rightarrow> default_configuration)"

definition configured_terms :: "configuration option \<Rightarrow> string list" where
  "configured_terms options =
     (case terms (effective_configuration options) of
        Some ts \<Rightarrow> ts
      | None \<Rightarrow> [''todo'', ''fixme'', ''xxx''])"

definition configured_location :: "configuration option \<Rightarrow> match_location" where
  "configured_location options =
     (case location (effective_configuration options) of Some l \<Rightarrow> l | None \<Rightarrow> Start)"

text \<open>The two alternatives of the pattern of the location \<open>anywhere\<close>, as the spec names them:
  the prefix rule, the escaped term and the suffix rule; and the term as it is, between
  two word boundaries.\<close>

definition boundary_aware_source :: "string \<Rightarrow> string" where
  "boundary_aware_source t = prefix_rule Anywhere t @ escapeRegExp t @ suffix_rule t"

definition whole_word_source :: "string \<Rightarrow> string" where
  "whole_word_source t = esc ''b'' @ t @ esc ''b''"

text \<open>No \<open>url\<close> is configured: the option is absent or the empty string.\<close>

definition url_unset :: "configuration option \<Rightarrow> bool" where
  "url_unset options =
     (case url (effective_configuration options) of None \<Rightarrow> True | Some u \<Rightarrow> u = [])"

text \<open>The field \<open>bugs\<close> gives no tracker: it is false, or it is not a string and its
  \<open>url\<close> is false.\<close>

definition bugs_gives_nothing :: "jsval \<Rightarrow> bool" where
  "bugs_gives_nothing bugs =
     (if truthy bugs
      then (if typeof_string bugs then False
            else (case get_prop bugs ''url'' of Inl e \<Rightarrow> False | Inr v \<Rightarrow> \<not> truthy v))
      else True)"

section \<open>Characters\<close>

lemma space_not_word: "isWhiteSpace c \<Longrightarrow> \<not> isWordChar c"
  by (auto simp: isWhiteSpace_def isWordChar_def Let_def)

lemma code_canonicalize:
  "code (canonicalize ic c) =
     (if ic \<and> ((65 \<le> code c \<and> code c \<le> 90) \<or> (192 \<le> code c \<and> code c \<le> 222 \<and> code c \<noteq> 215))
      then code c + 32 else code c)"
  by (auto simp: canonicalize_def code_def Let_def)

lemma word_canonicalize: "isWordChar (canonicalize ic c) = isWordChar c"
  unfolding isWordChar_def code_canonicalize Let_def by auto

lemma canon_word:
  "canonicalize ic c = canonicalize ic d \<Longrightarrow> isWordChar c = isWordChar d"
  using word_canonicalize [of ic c] word_canonicalize [of ic d] by simp

section \<open>Reading the patterns the rule builds\<close>

lemma lex_append:
  "lex a = Some ta \<Longrightarrow> lex (a @ b) = (case lex b of None \<Rightarrow> None | Some tb \<Rightarrow> Some (ta @ tb))"
proof (induction a arbitrary: ta rule: lex.induct)
  case 1
  then show ?case by (simp split: option.splits)
next
  case (2 c cs)
  then show ?case
    by (auto split: if_splits list.splits option.splits)
qed

lemma lex_escapeRegExp: "lex (escapeRegExp s) = Some (map lit_tok s)"
  by (induction s) (auto simp: escapeRegExp_def lit_tok_def isSyntaxChar_def)

lemma tok_atom_lit: "tok_atom (lit_tok c) = Some (Inr (Lit c))"
  by (simp add: tok_atom_def lit_tok_def isSyntaxChar_def)

lemma take_quant_no_quant: "no_quant ts \<Longrightarrow> take_quant ts = (One, True, ts)"
  by (cases ts) (auto simp: no_quant_def)

lemma quant_of_lit_tok: "quant_of (lit_tok c) = None"
  by (simp add: quant_of_def lit_tok_def isSyntaxChar_def)

lemma parse_alt_lits:
  "no_quant ts \<Longrightarrow> parse_alt (map lit_tok s @ ts) = map_option ((@) (map lit s)) (parse_alt ts)"
proof (induction s)
  case Nil
  then show ?case by (simp add: option.map_ident)
next
  case (Cons c s)
  have nq: "no_quant (map lit_tok s @ ts)"
    using Cons.prems by (cases s) (simp_all add: no_quant_def quant_of_lit_tok)
  show ?case
    using Cons nq
    by (simp add: tok_atom_lit take_quant_no_quant lit_def option.map_comp comp_def)
qed

lemma plain_Cons: "plain (t # ts) \<Longrightarrow> plain ts"
  by (auto simp: plain_def)

lemma split_top_plain1: "plain a \<Longrightarrow> split_top 0 False a = Some [a]"
proof (induction a)
  case Nil
  then show ?case by simp
next
  case (Cons t a)
  then have "split_top 0 False a = Some [a]" using plain_Cons by blast
  then show ?case using Cons.prems by (auto simp: plain_def cons_first_def)
qed

lemma split_top_plain:
  "plain a \<Longrightarrow> split_top 0 False (a @ bar # b) = map_option ((#) a) (split_top 0 False b)"
proof (induction a)
  case Nil
  then show ?case by (simp add: bar_def)
next
  case (Cons t a)
  then have "split_top 0 False (a @ bar # b) = map_option ((#) a) (split_top 0 False b)"
    using plain_Cons by blast
  then show ?case
    using Cons.prems
    by (cases "split_top 0 False b") (auto simp: plain_def cons_first_def)
qed

lemma plain_no_group: "plain a \<Longrightarrow> \<not> has_group a"
  by (auto simp: plain_def has_group_def)

lemma read_alts_before:
  "filter has_group b1 = filter has_group b2 \<Longrightarrow> read_alts host ic b1 ps = read_alts host ic b2 ps"
proof (induction ps arbitrary: b1 b2)
  case Nil
  then show ?case by simp
next
  case (Cons p ps)
  have "read_alts host ic (b1 @ [p]) ps = read_alts host ic (b2 @ [p]) ps"
    using Cons.prems by (intro Cons.IH) simp
  then show ?case using Cons.prems by (auto simp: read_alt_def split: option.splits)
qed

section \<open>Positions of a text\<close>

lemma all_splits_iff: "all_splits P l r \<longleftrightarrow> (\<forall>a b. r = a @ b \<longrightarrow> P (l @ a) b)"
proof (induction r arbitrary: l)
  case Nil
  then show ?case by simp
next
  case (Cons d r)
  show ?case
  proof
    assume h: "all_splits P l (d # r)"
    show "\<forall>a b. d # r = a @ b \<longrightarrow> P (l @ a) b"
    proof (intro allI impI)
      fix a b assume e: "d # r = a @ b"
      show "P (l @ a) b"
      proof (cases a)
        case Nil
        then have "b = d # r" using e by simp
        then show ?thesis using h Nil by simp
      next
        case (Cons x a')
        then have "r = a' @ b" "x = d" using e by simp_all
        then show ?thesis using h Cons.IH [of "l @ [d]"] Cons by simp
      qed
    qed
  next
    assume h: "\<forall>a b. d # r = a @ b \<longrightarrow> P (l @ a) b"
    have "P l (d # r)" using h [rule_format, of "[]" "d # r"] by simp
    moreover have "all_splits P (l @ [d]) r"
      unfolding Cons.IH
    proof (intro allI impI)
      fix a b assume "r = a @ b"
      then show "P ((l @ [d]) @ a) b" using h [rule_format, of "d # a" b] by simp
    qed
    ultimately show "all_splits P l (d # r)" by simp
  qed
qed

lemma ex_split_not: "ex_split P l r = (\<not> all_splits (\<lambda>a b. \<not> P a b) l r)"
  by (induction r arbitrary: l) auto

lemma ex_split_iff: "ex_split P l r \<longleftrightarrow> (\<exists>a b. r = a @ b \<and> P (l @ a) b)"
  unfolding ex_split_not all_splits_iff by blast

lemma concat_map_concat:
  "concat (map f (concat xss)) = concat (map (\<lambda>xs. concat (map f xs)) xss)"
  by (induction xss) simp_all

section \<open>The matcher\<close>

lemma m_items_append:
  "m_items ic (a @ b) st = concat (map (m_items ic b) (m_items ic a st))"
proof (induction a arbitrary: st)
  case Nil
  then show ?case by simp
next
  case (Cons it a)
  have "m_items ic (a @ b) = (\<lambda>x. concat (map (m_items ic b) (m_items ic a x)))"
    by (rule ext) (rule Cons.IH)
  then show ?case
    by (simp add: concat_map_concat comp_def)
qed

lemma ci_prefix_Nil [simp]: "ci_prefix ic [] r"
  by (simp add: ci_prefix_def)

lemma ci_prefix_Cons_Nil [simp]: "\<not> ci_prefix ic (c # t) []"
  by (simp add: ci_prefix_def)

lemma ci_prefix_Cons_Cons [simp]:
  "ci_prefix ic (c # t) (d # r) = (canonicalize ic c = canonicalize ic d \<and> ci_prefix ic t r)"
  by (auto simp: ci_prefix_def)

lemma m_items_lits:
  "m_items ic (map lit t @ its) (l, r) =
     (if ci_prefix ic t r then m_items ic its (l @ take (length t) r, drop (length t) r) else [])"
proof (induction t arbitrary: l r)
  case Nil
  then show ?case by simp
next
  case (Cons c t)
  show ?case
  proof (cases r)
    case Nil
    then show ?thesis by (simp add: lit_def step_def)
  next
    case (Cons d r')
    then show ?thesis
      using Cons.IH [of "l @ [d]" r'] by (simp add: lit_def step_def)
  qed
qed

lemma repeat_mem:
  "\<forall>c \<in> set a. atom_matches ic at c \<Longrightarrow> (l @ a, b) \<in> set (repeat ic at g l (a @ b))"
proof (induction a arbitrary: l)
  case Nil
  then show ?case by (cases b) auto
next
  case (Cons c a)
  then show ?case using Cons.IH [of "l @ [c]"] by auto
qed

lemma repeat_set:
  "st \<in> set (repeat ic at g l r) \<Longrightarrow>
     \<exists>a b. r = a @ b \<and> st = (l @ a, b) \<and> (\<forall>c \<in> set a. atom_matches ic at c)"
proof (induction r arbitrary: l)
  case Nil
  then show ?case by simp
next
  case (Cons d r)
  show ?case
  proof (cases "st = (l, d # r)")
    case True
    then show ?thesis by (intro exI [of _ "[]"] exI [of _ "d # r"]) simp
  next
    case False
    then have m: "atom_matches ic at d" and "st \<in> set (repeat ic at g (l @ [d]) r)"
      using Cons.prems by (auto split: if_splits)
    then obtain a b where "r = a @ b" "st = ((l @ [d]) @ a, b)" "\<forall>c \<in> set a. atom_matches ic at c"
      using Cons.IH by blast
    then show ?thesis using m by (intro exI [of _ "d # a"] exI [of _ b]) simp
  qed
qed

lemma exec_from_None:
  "exec_from re l r = None \<longleftrightarrow> all_splits (\<lambda>a b. m_alts re (a, b) = []) l r"
  by (induction r arbitrary: l) (auto split: list.splits)

lemma regexp_test_iff:
  "regexp_test re s \<longleftrightarrow> ex_split (\<lambda>a b. m_alts re (a, b) \<noteq> []) [] s"
  by (simp add: regexp_test_def regexp_exec_def exec_from_None ex_split_not)

section \<open>The patterns of the rule, as they are read\<close>

lemma m_alts_single: "m_alts \<lparr>alts = [Items a], ignoreCase = ic\<rparr> st = m_items ic a st"
  by (simp add: m_alts_def)

lemma test_word_at_end: "regexp_test re_word_at_end t = word_before t"
proof -
  have "m_alts re_word_at_end (a, b) \<noteq> [] \<longleftrightarrow> (\<exists>d. b = [d] \<and> isWordChar d)" for a b
    by (cases b) (auto simp: re_word_at_end_def m_alts_def step_def)
  then have "regexp_test re_word_at_end t \<longleftrightarrow> (\<exists>a d. t = a @ [d] \<and> isWordChar d)"
    by (auto simp: regexp_test_iff ex_split_iff)
  also have "\<dots> \<longleftrightarrow> word_before t"
    unfolding word_before_def
    by (cases t rule: rev_cases) auto
  finally show ?thesis .
qed

lemma test_word_at_start: "regexp_test re_word_at_start t = word_after t"
proof -
  have "m_alts re_word_at_start (a, b) \<noteq> [] \<longleftrightarrow> (a = [] \<and> word_after b)" for a b
    by (cases b) (auto simp: re_word_at_start_def m_alts_def step_def word_after_def)
  then show ?thesis
    by (auto simp: regexp_test_iff ex_split_iff)
qed

lemma lex_suffix_rule:
  "lex (suffix_rule t) =
     Some ((if word_before t then [TEsc (CHR ''b'')] else []) @ [TChar (CHR '':''), TMeta (CHR ''?'')])"
  by (simp add: suffix_rule_def test_word_at_end isSyntaxChar_def)

lemma lex_prefix_rule:
  "lex (prefix_rule loc t) =
     Some (if loc = Start then [TMeta (CHR ''^''), TEsc (CHR ''s''), TMeta (CHR ''*'')]
           else if word_after t then [TEsc (CHR ''b'')] else [])"
  by (simp add: prefix_rule_def test_word_at_start isSyntaxChar_def)

lemma parse_suffix:
  "parse_alt ((if word_before t then [TEsc (CHR ''b'')] else []) @ [TChar (CHR '':''), TMeta (CHR ''?'')])
     = Some (suffix_items t)"
  by (simp add: suffix_items_def tok_atom_def quant_of_def)

lemma no_quant_suffix:
  "no_quant ((if word_before t then [TEsc (CHR ''b'')] else []) @ [TChar (CHR '':''), TMeta (CHR ''?'')])"
  by (simp add: no_quant_def quant_of_def)

lemma lex_boundary_aware:
  "lex (prefix_rule loc t @ escapeRegExp t @ suffix_rule t) =
     Some ((if loc = Start then [TMeta (CHR ''^''), TEsc (CHR ''s''), TMeta (CHR ''*'')]
            else if word_after t then [TEsc (CHR ''b'')] else [])
           @ map lit_tok t
           @ (if word_before t then [TEsc (CHR ''b'')] else []) @ [TChar (CHR '':''), TMeta (CHR ''?'')])"
  by (simp add: lex_append [OF lex_prefix_rule] lex_append [OF lex_escapeRegExp] lex_suffix_rule)

lemma take_quant_star:
  "no_quant ts \<Longrightarrow> take_quant (TMeta (CHR ''*'') # ts) = (Star, True, ts)"
  by (cases ts) (auto simp: no_quant_def quant_of_def split: if_splits)

lemma parse_start_prefix:
  "no_quant ts \<Longrightarrow>
     parse_alt (TMeta (CHR ''^'') # TEsc (CHR ''s'') # TMeta (CHR ''*'') # ts) =
       map_option (\<lambda>x. Assert Bol # Atom (Class Space False) Star True # x) (parse_alt ts)"
  by (simp add: tok_atom_def take_quant_star option.map_comp comp_def del: take_quant.simps)

lemma parse_boundary_prefix:
  "parse_alt (TEsc (CHR ''b'') # ts) = map_option ((#) (Assert WordB)) (parse_alt ts)"
  by (simp add: tok_atom_def)

lemma parse_boundary_aware:
  "parse_alt ((if loc = Start then [TMeta (CHR ''^''), TEsc (CHR ''s''), TMeta (CHR ''*'')]
            else if word_after t then [TEsc (CHR ''b'')] else [])
           @ map lit_tok t
           @ (if word_before t then [TEsc (CHR ''b'')] else []) @ [TChar (CHR '':''), TMeta (CHR ''?'')])
    = Some (boundary_aware loc t)"
proof -
  let ?s = "(if word_before t then [TEsc (CHR ''b'')] else []) @ [TChar (CHR '':''), TMeta (CHR ''?'')]"
  have tail: "parse_alt (map lit_tok t @ ?s) = Some (map lit t @ suffix_items t)"
    using parse_alt_lits [OF no_quant_suffix, of t t] parse_suffix [of t] by simp
  have nq: "no_quant (map lit_tok t @ ?s)"
  proof (cases t)
    case Nil
    then show ?thesis using no_quant_suffix [of t] by simp
  next
    case (Cons c cs)
    then show ?thesis by (simp add: no_quant_def quant_of_lit_tok)
  qed
  show ?thesis
  proof (cases "loc = Start")
    case True
    then show ?thesis
      using tail parse_start_prefix [OF nq]
      by (simp add: boundary_aware_def prefix_items_def)
  next
    case False
    then show ?thesis
      using tail parse_boundary_prefix [of "map lit_tok t @ ?s"]
      by (simp add: boundary_aware_def prefix_items_def)
  qed
qed

lemma lex_bar: "lex (''|'' @ b) = (case lex b of None \<Rightarrow> None | Some tb \<Rightarrow> Some (bar # tb))"
  by (simp add: isSyntaxChar_def bar_def split: option.splits)

text \<open>A text read as one alternative without group or class is a pattern, whatever the
  engine does elsewhere.\<close>

lemma compile_plain:
  assumes "lex a = Some ta" "plain ta" "parse_alt ta = Some x"
  shows "compile host ic a = Some [Items x]"
  using assms by (simp add: compile_def split_top_plain1 read_alt_def)

text \<open>Such a text, a bar and any text: the alternatives are the one of the first text,
  then those of the second text as they are when it stands alone.\<close>

lemma compile_alternation:
  assumes "lex a = Some ta" "plain ta" "parse_alt ta = Some x"
  shows "compile host ic (a @ ''|'' @ b) =
           (case compile host ic b of None \<Rightarrow> None | Some y \<Rightarrow> Some (Items x # y))"
proof (cases "lex b")
  case None
  then show ?thesis
    by (simp add: compile_def lex_append [OF assms(1)] lex_bar)
next
  case (Some tb)
  then have lx: "lex (a @ ''|'' @ b) = Some (ta @ bar # tb)"
    using lex_append [OF assms(1), of "''|'' @ b"] lex_bar [of b] by simp
  show ?thesis
  proof (cases "split_top 0 False tb")
    case None
    then show ?thesis
      using Some lx by (simp add: compile_def split_top_plain [OF assms(2)])
  next
    case (Some ps)
    have "filter has_group ([] @ [ta]) = filter has_group []"
      using plain_no_group [OF assms(2)] by simp
    then have "read_alts host ic ([] @ [ta]) ps = read_alts host ic [] ps"
      by (rule read_alts_before)
    then have "read_alts host ic [] (ta # ps) = map_option ((#) (Items x)) (read_alts host ic [] ps)"
      using assms(3) by (simp add: read_alt_def)
    then show ?thesis
      using \<open>lex b = Some tb\<close> Some lx
      by (simp add: compile_def split_top_plain [OF assms(2)] split: option.splits)
  qed
qed

lemma plain_boundary_aware:
  "plain ((if loc = Start then [TMeta (CHR ''^''), TEsc (CHR ''s''), TMeta (CHR ''*'')]
            else if word_after t then [TEsc (CHR ''b'')] else [])
           @ map lit_tok t
           @ (if word_before t then [TEsc (CHR ''b'')] else []) @ [TChar (CHR '':''), TMeta (CHR ''?'')])"
  by (auto simp: plain_def lit_tok_def)

lemma compile_boundary_aware:
  "compile host ic (prefix_rule loc t @ escapeRegExp t @ suffix_rule t) =
     Some [Items (boundary_aware loc t)]"
  by (rule compile_plain [OF lex_boundary_aware plain_boundary_aware parse_boundary_aware])

lemma compile_literal: "compile host ic (escapeRegExp s) = Some [Items (map lit s)]"
proof -
  have "plain (map lit_tok s)"
    by (auto simp: plain_def lit_tok_def)
  moreover have "parse_alt (map lit_tok s) = Some (map lit s)"
    using parse_alt_lits [of "[]" s] by (simp add: no_quant_def)
  ultimately show ?thesis
    using compile_plain [OF lex_escapeRegExp] by blast
qed

lemma pattern_source_Start:
  "pattern_source Start t = prefix_rule Start t @ escapeRegExp t @ suffix_rule t"
  by (simp add: pattern_source_def Let_def)

lemma pattern_source_Anywhere:
  "pattern_source Anywhere t =
     (prefix_rule Anywhere t @ escapeRegExp t @ suffix_rule t) @ ''|'' @ (esc ''b'' @ t @ esc ''b'')"
  by (simp add: pattern_source_def Let_def)

lemma compile_Start:
  "compile host ic (pattern_source Start t) = Some [Items (boundary_aware Start t)]"
  by (simp only: pattern_source_Start compile_boundary_aware)

lemma compile_Anywhere:
  "compile host ic (pattern_source Anywhere t) =
     (case compile host ic (esc ''b'' @ t @ esc ''b'') of
        None \<Rightarrow> None
      | Some y \<Rightarrow> Some (Items (boundary_aware Anywhere t) # y))"
  unfolding pattern_source_Anywhere
  by (rule compile_alternation [OF lex_boundary_aware plain_boundary_aware parse_boundary_aware])

section \<open>Matching at the start of a comment\<close>

lemma at_boundary_words: "at_boundary l r = (word_before l \<noteq> word_after r)"
  by (simp add: at_boundary_def word_before_def word_after_def)

lemma ci_prefix_take:
  "ci_prefix ic t r \<Longrightarrow> map (canonicalize ic) (take (length t) r) = map (canonicalize ic) t"
  by (simp add: ci_prefix_def take_map)

lemma ci_prefix_append:
  "map (canonicalize ic) t' = map (canonicalize ic) t \<Longrightarrow> ci_prefix ic t (t' @ rest)"
proof -
  assume h: "map (canonicalize ic) t' = map (canonicalize ic) t"
  then have "length t' = length t" using map_eq_imp_length_eq by blast
  then show ?thesis using h by (simp add: ci_prefix_def)
qed

lemma ci_eq_last_word:
  assumes "map (canonicalize ic) t' = map (canonicalize ic) t" "t \<noteq> []"
  shows "t' \<noteq> [] \<and> isWordChar (last t') = isWordChar (last t)"
proof -
  have ne: "t' \<noteq> []" using assms by auto
  have "last (map (canonicalize ic) t') = last (map (canonicalize ic) t)" using assms by simp
  then have "canonicalize ic (last t') = canonicalize ic (last t)"
    using ne assms(2) by (simp add: last_map)
  then show ?thesis using ne canon_word by blast
qed

lemma ci_eq_hd_word:
  assumes "map (canonicalize ic) t' = map (canonicalize ic) t" "t \<noteq> []"
  shows "t' \<noteq> [] \<and> isWordChar (hd t') = isWordChar (hd t)"
proof -
  have ne: "t' \<noteq> []" using assms by auto
  have "hd (map (canonicalize ic) t') = hd (map (canonicalize ic) t)" using assms by simp
  then have "canonicalize ic (hd t') = canonicalize ic (hd t)"
    using ne assms(2) by (simp add: hd_map)
  then show ?thesis using ne canon_word by blast
qed

lemma word_before_match:
  assumes "ci_prefix ic t r" "t \<noteq> []"
  shows "word_before (l @ take (length t) r) = word_before t"
proof -
  have "take (length t) r \<noteq> [] \<and> isWordChar (last (take (length t) r)) = isWordChar (last t)"
    using ci_eq_last_word [OF ci_prefix_take [OF assms(1)] assms(2)] .
  then show ?thesis using assms(2) by (simp add: word_before_def)
qed

lemma word_after_match:
  assumes "ci_prefix ic t r" "t \<noteq> []"
  shows "word_after r = word_after t"
proof -
  have h: "take (length t) r \<noteq> [] \<and> isWordChar (hd (take (length t) r)) = isWordChar (hd t)"
    using ci_eq_hd_word [OF ci_prefix_take [OF assms(1)] assms(2)] .
  then have "r \<noteq> []" by auto
  moreover have "hd (take (length t) r) = hd r" using assms(2) by (cases r) auto
  ultimately show ?thesis using h assms(2) by (simp add: word_after_def)
qed

lemma concat_map_nonempty: "concat (map f xs) \<noteq> [] \<longleftrightarrow> (\<exists>x \<in> set xs. f x \<noteq> [])"
  by (induction xs) auto

lemma m_items_suffix:
  "m_items ic (suffix_items t) (l, r) \<noteq> [] \<longleftrightarrow> (if word_before t then at_boundary l r else True)"
  by (simp add: suffix_items_def)

lemma m_items_term_suffix:
  "m_items ic (map lit t @ suffix_items t) (l, r) \<noteq> [] \<longleftrightarrow>
     (ci_prefix ic t r \<and>
      (if word_before t then at_boundary (l @ take (length t) r) (drop (length t) r) else True))"
  by (simp add: m_items_lits m_items_suffix)

lemma repeat_nonempty_iff:
  "concat (map f (repeat ic at g l r)) \<noteq> [] \<longleftrightarrow>
     (\<exists>a b. r = a @ b \<and> (\<forall>c \<in> set a. atom_matches ic at c) \<and> f (l @ a, b) \<noteq> [])"
proof
  assume "concat (map f (repeat ic at g l r)) \<noteq> []"
  then obtain st where "st \<in> set (repeat ic at g l r)" "f st \<noteq> []"
    unfolding concat_map_nonempty by blast
  then show "\<exists>a b. r = a @ b \<and> (\<forall>c \<in> set a. atom_matches ic at c) \<and> f (l @ a, b) \<noteq> []"
    using repeat_set [of st ic at g l r] by blast
next
  assume "\<exists>a b. r = a @ b \<and> (\<forall>c \<in> set a. atom_matches ic at c) \<and> f (l @ a, b) \<noteq> []"
  then obtain a b where "r = a @ b" "\<forall>c \<in> set a. atom_matches ic at c" "f (l @ a, b) \<noteq> []"
    by blast
  then show "concat (map f (repeat ic at g l r)) \<noteq> []"
    unfolding concat_map_nonempty using repeat_mem [of a ic at l b g] by blast
qed

lemma convertToRegExp_Start:
  "convertToRegExp host Start t = Inr \<lparr>alts = [Items (boundary_aware Start t)], ignoreCase = True\<rparr>"
  by (simp add: convertToRegExp_def RegExp_new_def compile_Start)

text \<open>What the pattern of the location \<open>start\<close> matches.\<close>

lemma start_test_iff:
  "regexp_test \<lparr>alts = [Items (boundary_aware Start t)], ignoreCase = True\<rparr> c \<longleftrightarrow>
     (\<exists>ws r. c = ws @ r \<and> (\<forall>x \<in> set ws. isWhiteSpace x) \<and> ci_prefix True t r \<and>
        (if word_before t then at_boundary (ws @ take (length t) r) (drop (length t) r) else True))"
proof -
  let ?re = "\<lparr>alts = [Items (boundary_aware Start t)], ignoreCase = True\<rparr>"
  let ?L = "map lit t @ suffix_items t"
  have items: "boundary_aware Start t = Assert Bol # Atom (Class Space False) Star True # ?L"
    by (simp add: boundary_aware_def prefix_items_def)
  have at: "m_alts ?re (a, b) \<noteq> [] \<longleftrightarrow>
      (a = [] \<and> concat (map (m_items True ?L) (repeat True (Class Space False) True [] b)) \<noteq> [])"
    for a b
    by (simp add: m_alts_single items)
  have "regexp_test ?re c \<longleftrightarrow>
      concat (map (m_items True ?L) (repeat True (Class Space False) True [] c)) \<noteq> []"
    unfolding regexp_test_iff ex_split_iff at by auto
  also have "\<dots> \<longleftrightarrow> (\<exists>ws r. c = ws @ r \<and> (\<forall>x \<in> set ws. atom_matches True (Class Space False) x) \<and>
       m_items True ?L ([] @ ws, r) \<noteq> [])"
    by (rule repeat_nonempty_iff)
  also have "\<dots> \<longleftrightarrow> (\<exists>ws r. c = ws @ r \<and> (\<forall>x \<in> set ws. isWhiteSpace x) \<and> ci_prefix True t r \<and>
        (if word_before t then at_boundary (ws @ take (length t) r) (drop (length t) r) else True))"
    unfolding m_items_term_suffix by simp
  finally show ?thesis .
qed

section \<open>Matching anywhere in a comment\<close>

lemma word_not_syntax: "isWordChar c \<Longrightarrow> \<not> isSyntaxChar c"
  by (auto simp: isSyntaxChar_def isWordChar_def code_def Let_def)

lemma escapeRegExp_word: "list_all isWordChar t \<Longrightarrow> escapeRegExp t = t"
  by (induction t) (auto simp: escapeRegExp_def word_not_syntax)

lemma compile_whole_word:
  "compile host ic (esc ''b'' @ escapeRegExp t @ esc ''b'') =
     Some [Items (Assert WordB # map lit t @ [Assert WordB])]"
proof -
  let ?ts = "TEsc (CHR ''b'') # map lit_tok t @ [TEsc (CHR ''b'')]"
  have l1: "lex (esc ''b'') = Some [TEsc (CHR ''b'')]" by simp
  have "lex (escapeRegExp t @ esc ''b'') = Some (map lit_tok t @ [TEsc (CHR ''b'')])"
    using lex_append [OF lex_escapeRegExp, of t "esc ''b''"] l1 by simp
  then have lx: "lex (esc ''b'' @ escapeRegExp t @ esc ''b'') = Some ?ts"
    by simp
  have pl: "plain ?ts" by (auto simp: plain_def lit_tok_def)
  have "parse_alt (map lit_tok t @ [TEsc (CHR ''b'')]) = Some (map lit t @ [Assert WordB])"
    using parse_alt_lits [of "[TEsc (CHR ''b'')]" t]
    by (simp add: no_quant_def quant_of_def tok_atom_def)
  then have "parse_alt ?ts = Some (Assert WordB # map lit t @ [Assert WordB])"
    using parse_boundary_prefix [of "map lit_tok t @ [TEsc (CHR ''b'')]"] by simp
  then show ?thesis
    using compile_plain [OF lx pl] by blast
qed

lemma convertToRegExp_Anywhere_word:
  assumes "list_all isWordChar t"
  shows "convertToRegExp host Anywhere t =
           Inr \<lparr>alts = [Items (boundary_aware Anywhere t), Items (whole_word t)], ignoreCase = True\<rparr>"
proof -
  have "compile host True (esc ''b'' @ t @ esc ''b'') = Some [Items (whole_word t)]"
    using compile_whole_word [of host True t] escapeRegExp_word [OF assms]
    by (simp add: whole_word_def)
  then show ?thesis
    by (simp add: convertToRegExp_def RegExp_new_def compile_Anywhere)
qed

lemma m_alts_append:
  "m_alts \<lparr>alts = x @ y, ignoreCase = ic\<rparr> st =
     m_alts \<lparr>alts = x, ignoreCase = ic\<rparr> st @ m_alts \<lparr>alts = y, ignoreCase = ic\<rparr> st"
  by (simp add: m_alts_def)

lemma m_items_whole_word:
  "m_items ic (whole_word t) (l, r) \<noteq> [] \<longleftrightarrow>
     (at_boundary l r \<and> ci_prefix ic t r \<and> at_boundary (l @ take (length t) r) (drop (length t) r))"
  by (simp add: whole_word_def m_items_lits)

lemma m_items_boundary_aware_Anywhere:
  "m_items ic (boundary_aware Anywhere t) (l, r) \<noteq> [] \<longleftrightarrow>
     ((if word_after t then at_boundary l r else True) \<and> ci_prefix ic t r \<and>
      (if word_before t then at_boundary (l @ take (length t) r) (drop (length t) r) else True))"
  by (simp add: boundary_aware_def prefix_items_def m_items_term_suffix)

lemma word_only:
  assumes "t \<noteq> []" "list_all isWordChar t"
  shows "word_before t" "word_after t"
  using assms by (auto simp: word_before_def word_after_def list_all_iff)

text \<open>What the pattern of the location \<open>anywhere\<close> matches when the term is a word.\<close>

lemma anywhere_word_test_iff:
  assumes "t \<noteq> []" "list_all isWordChar t"
  shows "regexp_test \<lparr>alts = [Items (boundary_aware Anywhere t), Items (whole_word t)], ignoreCase = True\<rparr> c \<longleftrightarrow>
     (\<exists>l r. c = l @ r \<and> ci_prefix True t r \<and> \<not> word_before l \<and>
            \<not> word_after (drop (length t) r))"
proof -
  let ?re = "\<lparr>alts = [Items (boundary_aware Anywhere t), Items (whole_word t)], ignoreCase = True\<rparr>"
  have "m_alts ?re (l, r) \<noteq> [] \<longleftrightarrow>
      (ci_prefix True t r \<and> \<not> word_before l \<and> \<not> word_after (drop (length t) r))" for l r
  proof -
    have "m_alts ?re (l, r) \<noteq> [] \<longleftrightarrow>
      (at_boundary l r \<and> ci_prefix True t r \<and> at_boundary (l @ take (length t) r) (drop (length t) r))"
      using word_only [OF assms]
      by (auto simp: m_alts_def m_items_whole_word m_items_boundary_aware_Anywhere)
    also have "\<dots> \<longleftrightarrow> (ci_prefix True t r \<and> \<not> word_before l \<and> \<not> word_after (drop (length t) r))"
      using word_only [OF assms] word_before_match [of True t r l] word_after_match [of True t r] assms(1)
      by (auto simp: at_boundary_words)
    finally show ?thesis .
  qed
  then show ?thesis
    by (simp add: regexp_test_iff ex_split_iff)
qed

lemma start_matches:
  assumes ws: "list_all isWhiteSpace ws"
    and eq: "map (canonicalize True) t' = map (canonicalize True) t"
    and after: "word_before t \<Longrightarrow> \<not> word_after rest"
  shows "regexp_test \<lparr>alts = [Items (boundary_aware Start t)], ignoreCase = True\<rparr> (ws @ t' @ rest)"
proof -
  have len: "length t' = length t" using eq map_eq_imp_length_eq by blast
  have p: "ci_prefix True t (t' @ rest)" using eq by (rule ci_prefix_append)
  have b: "at_boundary (ws @ take (length t) (t' @ rest)) (drop (length t) (t' @ rest))"
    if wb: "word_before t"
  proof -
    have "t \<noteq> []" using wb by (auto simp: word_before_def)
    then have "word_before (ws @ take (length t) (t' @ rest))"
      using word_before_match [OF p, of ws] wb by simp
    moreover have "\<not> word_after (drop (length t) (t' @ rest))"
      using after [OF wb] len by simp
    ultimately show ?thesis by (simp add: at_boundary_words)
  qed
  show ?thesis
    unfolding start_test_iff
    using ws p b by (intro exI [of _ ws] exI [of _ "t' @ rest"]) (auto simp: list_all_iff)
qed

lemma only_inside_longer_wordsD:
  assumes "only_inside_longer_words c t" "c = l @ r" "ci_prefix True t r"
  shows "word_before l \<or> word_after (drop (length t) r)"
proof -
  have "\<forall>a b. c = a @ b \<longrightarrow>
      (if ci_prefix True t b then word_before ([] @ a) \<or> word_after (drop (length t) b) else True)"
    using assms(1) unfolding only_inside_longer_words_def all_splits_iff by blast
  then have "if ci_prefix True t r then word_before ([] @ l) \<or> word_after (drop (length t) r) else True"
    using assms(2) by blast
  then show ?thesis using assms(3) by simp
qed

lemma start_no_match_inside_word:
  assumes "only_inside_longer_words c t"
  shows "\<not> regexp_test \<lparr>alts = [Items (boundary_aware Start t)], ignoreCase = True\<rparr> c"
proof
  assume "regexp_test \<lparr>alts = [Items (boundary_aware Start t)], ignoreCase = True\<rparr> c"
  then obtain ws r where c: "c = ws @ r" and ws: "\<forall>x \<in> set ws. isWhiteSpace x"
    and p: "ci_prefix True t r"
    and b: "if word_before t then at_boundary (ws @ take (length t) r) (drop (length t) r) else True"
    unfolding start_test_iff by blast
  have ne: "t \<noteq> []" and w: "list_all isWordChar t"
    using assms by (auto simp: only_inside_longer_words_def)
  have wb: "word_before t" using word_only [OF ne w] by simp
  have "word_before (ws @ take (length t) r)"
    using word_before_match [OF p ne, of ws] wb by simp
  then have na: "\<not> word_after (drop (length t) r)"
    using b wb by (simp add: at_boundary_words)
  have "word_before ws \<or> word_after (drop (length t) r)"
    using only_inside_longer_wordsD [OF assms c p] .
  then have "word_before ws" using na by simp
  then have "ws \<noteq> []" "isWordChar (last ws)" by (auto simp: word_before_def)
  then show False using ws space_not_word [of "last ws"] by auto
qed

lemma anywhere_no_match_inside_word:
  assumes "only_inside_longer_words c t"
  shows "\<not> regexp_test \<lparr>alts = [Items (boundary_aware Anywhere t), Items (whole_word t)], ignoreCase = True\<rparr> c"
proof -
  have ne: "t \<noteq> []" and w: "list_all isWordChar t"
    using assms by (auto simp: only_inside_longer_words_def)
  show ?thesis
    unfolding anywhere_word_test_iff [OF ne w]
    using only_inside_longer_wordsD [OF assms] by blast
qed

section \<open>The tracker reference\<close>

lemma bind_Inr: "bind m f = Inr y \<Longrightarrow> \<exists>x. m = Inr x \<and> f x = Inr y"
  by (cases m) (auto simp: bind_def)

lemma create_Inr:
  assumes "create host options pkgUp = Inr eng"
  shows "\<exists>repoUrl. resolveRepoUrl (effective_configuration options) pkgUp = Inr repoUrl \<and>
           makeRepoUrlRegEx host repoUrl = Inr (repoUrlRegEx eng)"
proof -
  obtain repoUrl where r: "resolveRepoUrl (effective_configuration options) pkgUp = Inr repoUrl"
    and 1: "bind (makeRepoUrlRegEx host repoUrl) (\<lambda>urlRegEx.
         bind (map_err (convertToRegExp host (case location (effective_configuration options) of Some l \<Rightarrow> l | None \<Rightarrow> Start))
                 (case terms (effective_configuration options) of Some ts \<Rightarrow> ts
                          | None \<Rightarrow> [''todo'', ''fixme'', ''xxx''])) (\<lambda>regexps.
           Inr \<lparr>warningRegExps = regexps, repoUrlRegEx = urlRegEx\<rparr>)) = Inr eng"
    using assms bind_Inr unfolding create_def Let_def effective_configuration_def by fastforce
  obtain urlRegEx where u: "makeRepoUrlRegEx host repoUrl = Inr urlRegEx"
    and 2: "bind (map_err (convertToRegExp host (case location (effective_configuration options) of Some l \<Rightarrow> l | None \<Rightarrow> Start))
                 (case terms (effective_configuration options) of Some ts \<Rightarrow> ts
                          | None \<Rightarrow> [''todo'', ''fixme'', ''xxx''])) (\<lambda>regexps.
           Inr \<lparr>warningRegExps = regexps, repoUrlRegEx = urlRegEx\<rparr>) = Inr eng"
    using bind_Inr [OF 1] by blast
  obtain regexps where "eng = \<lparr>warningRegExps = regexps, repoUrlRegEx = urlRegEx\<rparr>"
    using bind_Inr [OF 2] by auto
  then show ?thesis using r u by auto
qed

lemma makeRepoUrlRegEx_string:
  "u \<noteq> [] \<Longrightarrow> makeRepoUrlRegEx host (JStr u) =
     Inr (Some \<lparr>alts = [Items (map lit (trim u))], ignoreCase = True\<rparr>)"
  by (simp add: makeRepoUrlRegEx_def RegExp_new_def compile_literal bind_def)

lemma makeRepoUrlRegEx_falsy: "\<not> truthy v \<Longrightarrow> makeRepoUrlRegEx host v = Inr None"
  by (simp add: makeRepoUrlRegEx_def)

lemma literal_test_iff:
  "regexp_test \<lparr>alts = [Items (map lit u)], ignoreCase = True\<rparr> c = contains_ci c u"
proof -
  have "m_alts \<lparr>alts = [Items (map lit u)], ignoreCase = True\<rparr> (a, b) \<noteq> [] \<longleftrightarrow> ci_prefix True u b" for a b
    using m_items_lits [of True u "[]" a b] by (simp add: m_alts_single)
  then show ?thesis
    by (simp add: regexp_test_iff contains_ci_def)
qed

lemma ci_prefix_mid:
  assumes "ci_prefix ic (a @ m @ b) r"
  shows "ci_prefix ic m (drop (length a) r)"
proof -
  let ?f = "canonicalize ic"
  let ?n = "length (a @ m @ b)"
  have "map ?f r = take ?n (map ?f r) @ drop ?n (map ?f r)" by simp
  then have "map ?f r = map ?f a @ map ?f m @ map ?f b @ drop ?n (map ?f r)"
    using assms unfolding ci_prefix_def by (metis append.assoc map_append)
  then have "drop (length a) (map ?f r) = map ?f m @ map ?f b @ drop ?n (map ?f r)"
    by (metis append_eq_conv_conj length_map)
  then have "take (length m) (drop (length a) (map ?f r)) = map ?f m"
    by simp
  then show ?thesis by (simp add: ci_prefix_def drop_map)
qed

lemma trim_decomposition: "\<exists>a b. u = a @ trim u @ b"
proof -
  let ?v = "dropWhile isWhiteSpace u"
  have "u = takeWhile isWhiteSpace u @ ?v" by simp
  moreover have "rev ?v = takeWhile isWhiteSpace (rev ?v) @ dropWhile isWhiteSpace (rev ?v)" by simp
  then have "?v = rev (dropWhile isWhiteSpace (rev ?v)) @ rev (takeWhile isWhiteSpace (rev ?v))"
    by (metis rev_append rev_rev_ident)
  ultimately have "u = takeWhile isWhiteSpace u @ trim u @ rev (takeWhile isWhiteSpace (rev ?v))"
    by (simp add: trim_def)
  then show ?thesis by blast
qed

lemma contains_ci_trim:
  assumes "contains_ci c u"
  shows "contains_ci c (trim u)"
proof -
  obtain l r where c: "c = l @ r" and p: "ci_prefix True u r"
    using assms unfolding contains_ci_def ex_split_iff by auto
  obtain a b where u: "u = a @ trim u @ b" using trim_decomposition by blast
  have "ci_prefix True (trim u) (drop (length a) r)"
    using p u ci_prefix_mid [of True a "trim u" b r] by simp
  moreover have "c = (l @ take (length a) r) @ drop (length a) r" using c by simp
  ultimately show ?thesis
    unfolding contains_ci_def ex_split_iff by (metis append_Nil)
qed

lemma firstUndocumented_exempt:
  "commentHasIssue eng c \<Longrightarrow> firstUndocumented eng res c = None"
  by (induction res) simp_all

lemma whole_word_test_iff:
  assumes "word_before t" "word_after t"
  shows "regexp_test \<lparr>alts = [Items (whole_word t)], ignoreCase = ic\<rparr> c \<longleftrightarrow>
     ex_split (\<lambda>l r. ci_prefix ic t r \<and> \<not> word_before l \<and> \<not> word_after (drop (length t) r)) [] c"
proof -
  have ne: "t \<noteq> []" using assms(1) by (auto simp: word_before_def)
  have "m_alts \<lparr>alts = [Items (whole_word t)], ignoreCase = ic\<rparr> (l, r) \<noteq> [] \<longleftrightarrow>
      (ci_prefix ic t r \<and> \<not> word_before l \<and> \<not> word_after (drop (length t) r))" for l r
    using assms word_before_match [of ic t r l] word_after_match [of ic t r] ne
    by (auto simp: m_alts_single m_items_whole_word at_boundary_words)
  then show ?thesis
    by (simp add: regexp_test_iff)
qed

lemma selfConfigRegEx_test:
  "regexp_test selfConfigRegEx s = contains_token s ''no-warning-comments''"
proof -
  have b: "word_before ''no-warning-comments''" and a: "word_after ''no-warning-comments''"
    by code_simp+
  have "selfConfigRegEx = \<lparr>alts = [Items (whole_word ''no-warning-comments'')], ignoreCase = False\<rparr>"
    by (simp add: selfConfigRegEx_def whole_word_def)
  then show ?thesis
    using whole_word_test_iff [OF b a, of False s] by (simp add: contains_token_def)
qed

lemma selfConfigRegEx_source:
  "RegExp_new host (esc ''bno-warning-comments'' @ esc ''b'') False = Inr selfConfigRegEx"
proof -
  have "compile host False (esc ''b'' @ escapeRegExp ''no-warning-comments'' @ esc ''b'') =
      Some [Items (Assert WordB # map lit ''no-warning-comments'' @ [Assert WordB])]"
    by (rule compile_whole_word)
  moreover have "escapeRegExp ''no-warning-comments'' = ''no-warning-comments''" by code_simp
  ultimately show ?thesis
    by (simp add: RegExp_new_def selfConfigRegEx_def)
qed

lemma word_at_end_source: "RegExp_new host (esc ''w$'') False = Inr re_word_at_end"
proof -
  have l: "lex (esc ''w$'') = Some [TEsc (CHR ''w''), TMeta (CHR ''$'')]" by code_simp
  have p: "plain [TEsc (CHR ''w''), TMeta (CHR ''$'')]" by code_simp
  have q: "parse_alt [TEsc (CHR ''w''), TMeta (CHR ''$'')] =
      Some [Atom (Class WordCh False) One True, Assert Eol]" by code_simp
  show ?thesis
    using compile_plain [OF l p q, of host False] by (simp add: RegExp_new_def re_word_at_end_def)
qed

lemma word_at_start_source: "RegExp_new host (''^'' @ esc ''w'') False = Inr re_word_at_start"
proof -
  have l: "lex (''^'' @ esc ''w'') = Some [TMeta (CHR ''^''), TEsc (CHR ''w'')]" by code_simp
  have p: "plain [TMeta (CHR ''^''), TEsc (CHR ''w'')]" by code_simp
  have q: "parse_alt [TMeta (CHR ''^''), TEsc (CHR ''w'')] =
      Some [Assert Bol, Atom (Class WordCh False) One True]" by code_simp
  show ?thesis
    using compile_plain [OF l p q, of host False] by (simp add: RegExp_new_def re_word_at_start_def)
qed

lemma firstUndocumented_find:
  "\<not> commentHasIssue eng c \<Longrightarrow>
     firstUndocumented eng res c =
       map_option (\<lambda>re. ellipsize (trim (replace_empty c re)) 60) (find (\<lambda>re. regexp_test re c) res)"
  by (induction res) (simp_all add: Let_def)

lemma test_alternation:
  "regexp_test \<lparr>alts = x @ y, ignoreCase = ic\<rparr> c =
     (regexp_test \<lparr>alts = x, ignoreCase = ic\<rparr> c \<or> regexp_test \<lparr>alts = y, ignoreCase = ic\<rparr> c)"
  unfolding regexp_test_iff ex_split_iff m_alts_append by auto

section \<open>Rule creation without a tracker\<close>

lemma create_unfold:
  "create host options pkgUp =
     bind (resolveRepoUrl (effective_configuration options) pkgUp) (\<lambda>repoUrl.
     bind (makeRepoUrlRegEx host repoUrl) (\<lambda>urlRegEx.
     bind (map_err (convertToRegExp host (configured_location options)) (configured_terms options))
       (\<lambda>regexps. Inr \<lparr>warningRegExps = regexps, repoUrlRegEx = urlRegEx\<rparr>)))"
  by (simp add: create_def Let_def effective_configuration_def configured_terms_def
      configured_location_def)

lemma resolveRepoUrl_unset:
  "url_unset options \<Longrightarrow> resolveRepoUrl (effective_configuration options) pkgUp = getRepoUrl pkgUp"
  by (auto simp: url_unset_def resolveRepoUrl_def split: option.splits)

lemma getRepoUrl_nothing:
  assumes "get_prop res ''packageJson'' = Inr pj"
    and "get_prop pj ''bugs'' = Inr b" "bugs_gives_nothing b"
    and "get_prop pj ''repository'' = Inr rp" "\<not> truthy rp"
  shows "getRepoUrl (Inr res) = Inr JUndefined"
  using assms
  by (auto simp: getRepoUrl_def bind_def bugs_gives_nothing_def split: if_splits sum.splits)

lemma map_err_Start:
  "map_err (convertToRegExp host Start) ts =
     Inr (map (\<lambda>t. \<lparr>alts = [Items (boundary_aware Start t)], ignoreCase = True\<rparr>) ts)"
  by (induction ts) (simp_all add: convertToRegExp_Start bind_def)

lemma getRepoUrl_throws: "getRepoUrl (Inl e) = Inl e" "getRepoUrl (Inr JUndefined) = Inl TypeError"
  by (simp_all add: getRepoUrl_def bind_def)

text \<open>With the default options a failed lookup ends the run, whatever the engine.\<close>

lemma lookup_failure_any_engine:
  "run_rule host None (Inr JUndefined) comments = Inl TypeError"
  "run_rule host None (Inl e) comments = Inl e"
  by (simp_all add: run_rule_def create_def default_configuration_def resolveRepoUrl_def
      getRepoUrl_def bind_def)

section \<open>C1: terms are matched as whole words\<close>

text \<open>
  Claim C1. For every term \<open>t\<close> and every comment that is whitespace, then \<open>t\<close> (in
  any case of its letters), then nothing or a text that starts with a character that is
  not a word character, the pattern of the location \<open>start\<close> matches the comment. And
  for a term that is a word and a comment in which it occurs only inside longer words
  (as \<open>todo\<close> does in \<open>mastodon\<close>), neither the pattern of the location \<open>start\<close>
  nor that of the location \<open>anywhere\<close> matches.
\<close>

theorem whole_word_matching:
  "(list_all isWhiteSpace ws \<and> map (canonicalize True) t' = map (canonicalize True) t \<and>
      \<not> word_after rest
    \<longrightarrow> (\<exists>re. convertToRegExp host Start t = Inr re \<and> regexp_test re (ws @ t' @ rest)))
   \<and> (only_inside_longer_words c t
    \<longrightarrow> (\<exists>re. convertToRegExp host Start t = Inr re \<and> \<not> regexp_test re c) \<and>
        (\<exists>re. convertToRegExp host Anywhere t = Inr re \<and> \<not> regexp_test re c))"
proof (intro conjI impI)
  assume "list_all isWhiteSpace ws \<and> map (canonicalize True) t' = map (canonicalize True) t \<and>
      \<not> word_after rest"
  then show "\<exists>re. convertToRegExp host Start t = Inr re \<and> regexp_test re (ws @ t' @ rest)"
    using start_matches [of ws t' t rest] by (simp add: convertToRegExp_Start)
next
  assume "only_inside_longer_words c t"
  then show "\<exists>re. convertToRegExp host Start t = Inr re \<and> \<not> regexp_test re c"
    using start_no_match_inside_word by (simp add: convertToRegExp_Start)
next
  assume h: "only_inside_longer_words c t"
  then have "list_all isWordChar t" by (simp add: only_inside_longer_words_def)
  then show "\<exists>re. convertToRegExp host Anywhere t = Inr re \<and> \<not> regexp_test re c"
    using anywhere_no_match_inside_word [OF h] by (simp add: convertToRegExp_Anywhere_word)
qed

theorem whole_word_matching_witness:
  "(\<exists>re. convertToRegExp todo_host Start ''todo'' = Inr re \<and> regexp_test re (''  '' @ ''TODO'' @ '': fix it''))
   \<and> (\<exists>re. convertToRegExp todo_host Start ''todo'' = Inr re \<and> \<not> regexp_test re ''a mastodon'')
   \<and> (\<exists>re. convertToRegExp todo_host Anywhere ''todo'' = Inr re \<and> \<not> regexp_test re ''a mastodon'')"
proof -
  have h1: "list_all isWhiteSpace ''  ''" by code_simp
  have h2: "map (canonicalize True) ''TODO'' = map (canonicalize True) ''todo''" by code_simp
  have h3: "\<not> word_after '': fix it''" by code_simp
  have h4: "only_inside_longer_words ''a mastodon'' ''todo''" by code_simp
  show ?thesis
    using whole_word_matching [where ws = "''  ''" and t' = "''TODO''" and t = "''todo''"
        and rest = "'': fix it''" and c = "''a mastodon''" and host = todo_host]
      h1 h2 h3 h4 by blast
qed

section \<open>C2: a comment that names the tracker is exempt\<close>

text \<open>
  Claim C2. When the tracker reference, configured or found in the manifest, is a
  string that is not empty, a comment that contains it (up to the case of letters) has
  an issue: no message is computed for it and nothing is reported, whatever term
  matched. When there is no tracker reference (the value is \<open>undefined\<close> or another false
  value), no comment has an issue.
\<close>

theorem tracker_reference_exempts:
  "(create host options pkgUp = Inr eng \<and>
      resolveRepoUrl (effective_configuration options) pkgUp = Inr (JStr u) \<and> u \<noteq> [] \<and>
      contains_ci c u
    \<longrightarrow> commentHasIssue eng c \<and> getUndocumentedTodoMessage eng c = None \<and>
        checkComment eng \<lparr>node_type = k, node_value = c\<rparr> = None)
   \<and> (create host options pkgUp = Inr eng \<and>
        resolveRepoUrl (effective_configuration options) pkgUp = Inr v \<and> \<not> truthy v
    \<longrightarrow> \<not> commentHasIssue eng c)"
proof (intro conjI impI)
  assume h: "create host options pkgUp = Inr eng \<and>
      resolveRepoUrl (effective_configuration options) pkgUp = Inr (JStr u) \<and> u \<noteq> [] \<and>
      contains_ci c u"
  then have "makeRepoUrlRegEx host (JStr u) = Inr (repoUrlRegEx eng)"
    using create_Inr [of host options pkgUp eng] by auto
  then have re: "repoUrlRegEx eng = Some \<lparr>alts = [Items (map lit (trim u))], ignoreCase = True\<rparr>"
    using h makeRepoUrlRegEx_string [of u] by simp
  show issue: "commentHasIssue eng c"
    using h contains_ci_trim [of c u] by (simp add: commentHasIssue_def re literal_test_iff)
  then show none: "getUndocumentedTodoMessage eng c = None"
    by (simp add: getUndocumentedTodoMessage_def firstUndocumented_exempt)
  then show "checkComment eng \<lparr>node_type = k, node_value = c\<rparr> = None"
    by (simp add: checkComment_def)
next
  assume h: "create host options pkgUp = Inr eng \<and>
        resolveRepoUrl (effective_configuration options) pkgUp = Inr v \<and> \<not> truthy v"
  then have "makeRepoUrlRegEx host v = Inr (repoUrlRegEx eng)"
    using create_Inr [of host options pkgUp eng] by auto
  then have "repoUrlRegEx eng = None"
    using h makeRepoUrlRegEx_falsy [of v] by simp
  then show "\<not> commentHasIssue eng c"
    by (simp add: commentHasIssue_def)
qed

theorem tracker_reference_exempts_witness:
  "(\<exists>eng. create todo_host (Some \<lparr>terms = Some [''todo''], location = Some Start,
                          url = Some ''https://x.test/issues''\<rparr>) (Inr JUndefined) = Inr eng \<and>
       commentHasIssue eng '' TODO: see HTTPS://x.test/issues/4'' \<and>
       checkComment eng \<lparr>node_type = Line, node_value = '' TODO: see HTTPS://x.test/issues/4''\<rparr> = None)
   \<and> (\<exists>eng. create todo_host None (Inr (JObj [(''packageJson'', JObj [(''name'', JStr ''x'')])])) = Inr eng \<and>
       \<not> commentHasIssue eng '' TODO: see https://x.test/issues/4'')"
proof -
  let ?o1 = "Some \<lparr>terms = Some [''todo''], location = Some Start, url = Some ''https://x.test/issues''\<rparr>"
  let ?p2 = "Inr (JObj [(''packageJson'', JObj [(''name'', JStr ''x'')])]) :: error + jsval"
  have "\<not> isl (create todo_host ?o1 (Inr JUndefined))" by code_simp
  then obtain e1 where c1: "create todo_host ?o1 (Inr JUndefined) = Inr e1"
    by (cases "create todo_host ?o1 (Inr JUndefined)") auto
  have r1: "resolveRepoUrl (effective_configuration ?o1) (Inr JUndefined) = Inr (JStr ''https://x.test/issues'')"
    by code_simp
  have n1: "''https://x.test/issues'' \<noteq> []" by simp
  have k1: "contains_ci '' TODO: see HTTPS://x.test/issues/4'' ''https://x.test/issues''"
    by code_simp
  have "\<not> isl (create todo_host None ?p2)" by code_simp
  then obtain e2 where c2: "create todo_host None ?p2 = Inr e2"
    by (cases "create todo_host None ?p2") auto
  have r2: "resolveRepoUrl (effective_configuration None) ?p2 = Inr JUndefined"
    by code_simp
  have t2: "\<not> truthy JUndefined" by simp
  show ?thesis
    using tracker_reference_exempts [of todo_host ?o1 "Inr JUndefined" e1 "''https://x.test/issues''"
        "'' TODO: see HTTPS://x.test/issues/4''" Line JUndefined]
      tracker_reference_exempts [of todo_host None ?p2 e2 "[]" "'' TODO: see https://x.test/issues/4''"
        Line JUndefined]
      c1 r1 n1 k1 c2 r2 t2 by blast
qed

section \<open>C3: the length of the message\<close>

text \<open>
  Claim C3. Take a comment that is not the rule's own directive and has no issue, and
  the first pattern that matches it. What is left of the comment once the match is
  removed and the rest trimmed is the remainder. If the remainder has more than 60
  characters, the message is its first 60 characters followed by the truncation marker,
  and that is what is reported after \<open>Undocumented TODO: \<close>; a remainder of 60
  characters or fewer is the message, unchanged.
\<close>

theorem message_truncated_at_60:
  "find (\<lambda>re. regexp_test re (node_value nd)) (warningRegExps eng) = Some r \<and>
   \<not> commentHasIssue eng (node_value nd) \<and>
   \<not> (isDirectiveComment nd \<and> regexp_test selfConfigRegEx (node_value nd))
   \<longrightarrow> (let remainder = trim (replace_empty (node_value nd) r)
        in if 60 < length remainder
           then getUndocumentedTodoMessage eng (node_value nd)
                  = Some (take 60 remainder @ truncation_marker) \<and>
                length (take 60 remainder) = 60 \<and>
                checkComment eng nd
                  = Some (''Undocumented TODO: '' @ take 60 remainder @ truncation_marker)
           else getUndocumentedTodoMessage eng (node_value nd) = Some remainder)"
proof
  assume h: "find (\<lambda>re. regexp_test re (node_value nd)) (warningRegExps eng) = Some r \<and>
   \<not> commentHasIssue eng (node_value nd) \<and>
   \<not> (isDirectiveComment nd \<and> regexp_test selfConfigRegEx (node_value nd))"
  let ?rem = "trim (replace_empty (node_value nd) r)"
  have m: "getUndocumentedTodoMessage eng (node_value nd) = Some (ellipsize ?rem 60)"
    using h firstUndocumented_find [of eng "node_value nd" "warningRegExps eng"]
    by (simp add: getUndocumentedTodoMessage_def)
  show "let remainder = ?rem
        in if 60 < length remainder
           then getUndocumentedTodoMessage eng (node_value nd)
                  = Some (take 60 remainder @ truncation_marker) \<and>
                length (take 60 remainder) = 60 \<and>
                checkComment eng nd
                  = Some (''Undocumented TODO: '' @ take 60 remainder @ truncation_marker)
           else getUndocumentedTodoMessage eng (node_value nd) = Some remainder"
  proof (cases "60 < length ?rem")
    case True
    then have e: "ellipsize ?rem 60 = take 60 ?rem @ truncation_marker"
      by (simp add: ellipsize_def)
    have "take 60 ?rem @ truncation_marker \<noteq> []"
      by (simp add: truncation_marker_def)
    then have "checkComment eng nd = Some (''Undocumented TODO: '' @ take 60 ?rem @ truncation_marker)"
      using h m e unfolding checkComment_def by auto
    then show ?thesis using True m e by (simp add: Let_def)
  next
    case False
    then show ?thesis using m by (simp add: Let_def ellipsize_def)
  qed
qed

theorem message_truncated_at_60_witness:
  "getUndocumentedTodoMessage
     \<lparr>warningRegExps = [\<lparr>alts = [Items (boundary_aware Start ''todo'')], ignoreCase = True\<rparr>], repoUrlRegEx = None\<rparr>
     '' TODO: 0123456789 0123456789 0123456789 0123456789 0123456789 0123456789''
   = Some (''0123456789 0123456789 0123456789 0123456789 0123456789 01234'' @ truncation_marker)"
proof -
  let ?re = "\<lparr>alts = [Items (boundary_aware Start ''todo'')], ignoreCase = True\<rparr>"
  let ?eng = "\<lparr>warningRegExps = [?re], repoUrlRegEx = None\<rparr>"
  let ?c = "'' TODO: 0123456789 0123456789 0123456789 0123456789 0123456789 0123456789''"
  let ?nd = "\<lparr>node_type = Line, node_value = ?c\<rparr>"
  have "regexp_test ?re ?c" by code_simp
  then have h1: "find (\<lambda>re. regexp_test re (node_value ?nd)) (warningRegExps ?eng) = Some ?re"
    by simp
  have h2: "\<not> commentHasIssue ?eng (node_value ?nd)" by code_simp
  have h3: "\<not> (isDirectiveComment ?nd \<and> regexp_test selfConfigRegEx (node_value ?nd))" by code_simp
  have r: "trim (replace_empty (node_value ?nd) ?re) =
      ''0123456789 0123456789 0123456789 0123456789 0123456789 0123456789''" by code_simp
  show ?thesis
    using message_truncated_at_60 [of ?nd ?eng ?re] h1 h2 h3 unfolding r
    by (simp add: Let_def)
qed

section \<open>C4: the scenario of a term followed by a colon\<close>

text \<open>
  Claim C4. With the terms \<open>["todo"]\<close>, the location \<open>start\<close>, no \<open>url\<close> and a manifest that
  names no tracker, the comment \<open>// TODO: refactor this\<close> (whose text is
  \<open>" TODO: refactor this"\<close>) is reported with the message
  \<open>Undocumented TODO: refactor this\<close>: the colon after the term belongs to the match, so
  what is left after removing the match is \<open>" refactor this"\<close>.
\<close>

theorem scenario_todo_colon:
  "run_rule host (Some \<lparr>terms = Some [''todo''], location = Some Start, url = None\<rparr>)
       (Inr (JObj [(''packageJson'', JObj [])]))
       [\<lparr>node_type = Line, node_value = '' TODO: refactor this''\<rparr>]
     = Inr [(\<lparr>node_type = Line, node_value = '' TODO: refactor this''\<rparr>,
             ''Undocumented TODO: refactor this'')]
   \<and> map_sum id (replace_empty '' TODO: refactor this'') (convertToRegExp host Start ''todo'')
     = Inr '' refactor this''"
  by code_simp

section \<open>C5: the tracker found in the manifest\<close>

text \<open>
  Claim C5 says that the tracker is \<open>bugs\<close> when it is a string, else \<open>bugs.url\<close>, else
  \<open>repository\<close> when it is a string, else \<open>repository.url\<close>. For \<open>bugs\<close> the code does
  so: an object with a \<open>url\<close> gives that \<open>url\<close>. For a \<open>repository\<close> that is an object
  the code tests \<open>packageJson.resolutions.url\<close> before it returns \<open>repository.url\<close>: in
  a manifest without \<open>resolutions\<close> that read throws a TypeError.
\<close>

theorem getRepoUrl_repository_object:
  "getRepoUrl (Inr (JObj [(''packageJson'',
       JObj [(''bugs'', JObj [(''url'', JStr ''https://github.com/AuHau/eslint-plugin-todos/issues'')])])]))
     = Inr (JStr ''https://github.com/AuHau/eslint-plugin-todos/issues'')
   \<and> getRepoUrl (Inr (JObj [(''packageJson'',
       JObj [(''repository'', JObj [(''type'', JStr ''git''),
                                    (''url'', JStr ''https://github.com/AuHau/eslint-plugin-todos'')])])]))
     = Inl TypeError"
  by code_simp

section \<open>C6: a manifest that cannot be read\<close>

text \<open>
  Claim C6 says that a manifest that cannot be found or read never makes the rule fail.
  It does: \<open>getRepoUrl\<close> reads \<open>packageJson\<close> from whatever \<open>readPkgUp.sync()\<close> returns and
  handles no error, so with the default options both a lookup that finds nothing and a
  lookup that throws end the rule's creation, and nothing is reported.
\<close>

theorem lookup_failure_is_fatal:
  "run_rule todo_host None (Inr JUndefined) [\<lparr>node_type = Line, node_value = '' TODO: later''\<rparr>]
     = Inl TypeError
   \<and> run_rule todo_host None (Inl ManifestError) [\<lparr>node_type = Line, node_value = '' TODO: later''\<rparr>]
     = Inl ManifestError"
  by code_simp

text \<open>
  Claim C6, amended. With no \<open>url\<close> configured, a lookup that throws or finds no manifest
  makes the creation of the rule throw. When the manifest is read, its \<open>bugs\<close> gives no
  tracker and its \<open>repository\<close> is absent or false, \<open>getRepoUrl\<close> returns \<open>undefined\<close> and
  the rule is created as it is with no tracker at all: creation fails only if a term is
  not a pattern (never in the location \<open>start\<close>), no comment has an issue, and every
  comment that is not the rule's own directive, that a term matches and whose remainder
  is not empty is reported.
\<close>

theorem no_tracker_in_manifest:
  "(url_unset options
    \<longrightarrow> create host options (Inl e) = Inl e \<and> create host options (Inr JUndefined) = Inl TypeError)
   \<and> (url_unset options \<and> get_prop res ''packageJson'' = Inr pj \<and>
      get_prop pj ''bugs'' = Inr b \<and> bugs_gives_nothing b \<and>
      get_prop pj ''repository'' = Inr rp \<and> \<not> truthy rp
    \<longrightarrow> getRepoUrl (Inr res) = Inr JUndefined
      \<and> create host options (Inr res) =
          bind (map_err (convertToRegExp host (configured_location options)) (configured_terms options))
            (\<lambda>regexps. Inr \<lparr>warningRegExps = regexps, repoUrlRegEx = None\<rparr>)
      \<and> (configured_location options = Start \<longrightarrow> (\<exists>eng. create host options (Inr res) = Inr eng))
      \<and> (create host options (Inr res) = Inr eng \<longrightarrow> \<not> commentHasIssue eng c)
      \<and> (create host options (Inr res) = Inr eng \<and>
          find (\<lambda>re. regexp_test re (node_value nd)) (warningRegExps eng) = Some r \<and>
          \<not> (isDirectiveComment nd \<and> regexp_test selfConfigRegEx (node_value nd)) \<and>
          trim (replace_empty (node_value nd) r) \<noteq> []
        \<longrightarrow> checkComment eng nd =
              Some (''Undocumented TODO: '' @ ellipsize (trim (replace_empty (node_value nd) r)) 60)))"
proof (intro conjI impI)
  assume u: "url_unset options"
  show "create host options (Inl e) = Inl e"
    by (simp add: create_unfold resolveRepoUrl_unset [OF u] getRepoUrl_throws bind_def)
  show "create host options (Inr JUndefined) = Inl TypeError"
    by (simp add: create_unfold resolveRepoUrl_unset [OF u] getRepoUrl_throws bind_def)
next
  assume h: "url_unset options \<and> get_prop res ''packageJson'' = Inr pj \<and>
      get_prop pj ''bugs'' = Inr b \<and> bugs_gives_nothing b \<and>
      get_prop pj ''repository'' = Inr rp \<and> \<not> truthy rp"
  then show g: "getRepoUrl (Inr res) = Inr JUndefined"
    using getRepoUrl_nothing [of res pj b rp] by simp
  show c: "create host options (Inr res) =
          bind (map_err (convertToRegExp host (configured_location options)) (configured_terms options))
            (\<lambda>regexps. Inr \<lparr>warningRegExps = regexps, repoUrlRegEx = None\<rparr>)"
    using h g by (simp add: create_unfold resolveRepoUrl_unset makeRepoUrlRegEx_falsy bind_def)
  {
    assume "configured_location options = Start"
    then show "\<exists>eng. create host options (Inr res) = Inr eng"
      unfolding c by (simp add: map_err_Start bind_def)
  }
  {
    assume "create host options (Inr res) = Inr eng"
    then have "repoUrlRegEx eng = None"
      unfolding c using bind_Inr by fastforce
    then show "\<not> commentHasIssue eng c" by (simp add: commentHasIssue_def)
  }
  {
    assume k: "create host options (Inr res) = Inr eng \<and>
          find (\<lambda>re. regexp_test re (node_value nd)) (warningRegExps eng) = Some r \<and>
          \<not> (isDirectiveComment nd \<and> regexp_test selfConfigRegEx (node_value nd)) \<and>
          trim (replace_empty (node_value nd) r) \<noteq> []"
    let ?rem = "trim (replace_empty (node_value nd) r)"
    have "repoUrlRegEx eng = None"
      using k unfolding c using bind_Inr by fastforce
    then have "\<not> commentHasIssue eng (node_value nd)" by (simp add: commentHasIssue_def)
    then have m: "getUndocumentedTodoMessage eng (node_value nd) = Some (ellipsize ?rem 60)"
      using k firstUndocumented_find [of eng "node_value nd" "warningRegExps eng"]
      by (simp add: getUndocumentedTodoMessage_def)
    have "ellipsize ?rem 60 \<noteq> []"
      using k by (auto simp: ellipsize_def)
    then show "checkComment eng nd = Some (''Undocumented TODO: '' @ ellipsize ?rem 60)"
      using k m unfolding checkComment_def by auto
  }
qed

theorem no_tracker_in_manifest_witness:
  "create todo_host None (Inl ManifestError) = Inl ManifestError
   \<and> getRepoUrl (Inr (JObj [(''packageJson'', JObj [(''bugs'', JObj [(''email'', JStr ''a@b.c'')])])]))
       = Inr JUndefined
   \<and> (\<exists>eng. create todo_host None (Inr (JObj [(''packageJson'', JObj [(''bugs'', JObj [(''email'', JStr ''a@b.c'')])])]))
              = Inr eng \<and>
        \<not> commentHasIssue eng '' FIXME: later'' \<and>
        checkComment eng \<lparr>node_type = Line, node_value = '' FIXME: later''\<rparr>
          = Some (''Undocumented TODO: '' @
                  ellipsize (trim (replace_empty '' FIXME: later''
                    \<lparr>alts = [Items (boundary_aware Start ''fixme'')], ignoreCase = True\<rparr>)) 60))"
proof -
  let ?b = "JObj [(''email'', JStr ''a@b.c'')]"
  let ?pj = "JObj [(''bugs'', ?b)]"
  let ?res = "JObj [(''packageJson'', ?pj)]"
  let ?r = "\<lparr>alts = [Items (boundary_aware Start ''fixme'')], ignoreCase = True\<rparr>"
  let ?nd = "\<lparr>node_type = Line, node_value = '' FIXME: later''\<rparr>"
  have u: "url_unset None" by code_simp
  have h: "get_prop ?res ''packageJson'' = Inr ?pj \<and>
      get_prop ?pj ''bugs'' = Inr ?b \<and> bugs_gives_nothing ?b \<and>
      get_prop ?pj ''repository'' = Inr JUndefined \<and> \<not> truthy JUndefined" by code_simp
  have l: "configured_location None = Start" by code_simp
  have all: "create todo_host None (Inl ManifestError) = Inl ManifestError
      \<and> getRepoUrl (Inr ?res) = Inr JUndefined
      \<and> (\<exists>eng. create todo_host None (Inr ?res) = Inr eng)
      \<and> (\<forall>eng. create todo_host None (Inr ?res) = Inr eng \<longrightarrow> \<not> commentHasIssue eng '' FIXME: later'')
      \<and> (\<forall>eng. create todo_host None (Inr ?res) = Inr eng \<and>
          find (\<lambda>re. regexp_test re (node_value ?nd)) (warningRegExps eng) = Some ?r \<and>
          \<not> (isDirectiveComment ?nd \<and> regexp_test selfConfigRegEx (node_value ?nd)) \<and>
          trim (replace_empty (node_value ?nd) ?r) \<noteq> []
        \<longrightarrow> checkComment eng ?nd =
              Some (''Undocumented TODO: '' @ ellipsize (trim (replace_empty (node_value ?nd) ?r)) 60))"
    using no_tracker_in_manifest [where host = todo_host and options = None and e = ManifestError
        and res = ?res and pj = ?pj and b = ?b and rp = JUndefined and c = "'' FIXME: later''"
        and nd = ?nd and r = ?r]
      u h l by blast
  then obtain eng where e: "create todo_host None (Inr ?res) = Inr eng" by blast
  have ts: "configured_terms None = [''todo'', ''fixme'', ''xxx'']" by code_simp
  have "create todo_host None (Inr ?res) =
      bind (map_err (convertToRegExp todo_host (configured_location None)) (configured_terms None))
        (\<lambda>regexps. Inr \<lparr>warningRegExps = regexps, repoUrlRegEx = None\<rparr>)"
    using no_tracker_in_manifest [where host = todo_host and options = None and res = ?res
        and pj = ?pj and b = ?b and rp = JUndefined] u h
    by blast
  then have "create todo_host None (Inr ?res) =
      Inr \<lparr>warningRegExps = map (\<lambda>t. \<lparr>alts = [Items (boundary_aware Start t)], ignoreCase = True\<rparr>)
                               [''todo'', ''fixme'', ''xxx''],
           repoUrlRegEx = None\<rparr>"
    unfolding l ts map_err_Start by (simp add: bind_def)
  then have w: "warningRegExps eng = map (\<lambda>t. \<lparr>alts = [Items (boundary_aware Start t)], ignoreCase = True\<rparr>)
                               [''todo'', ''fixme'', ''xxx'']"
    using e by auto
  have "\<not> regexp_test \<lparr>alts = [Items (boundary_aware Start ''todo'')], ignoreCase = True\<rparr>
           (node_value ?nd)" by code_simp
  moreover have "regexp_test ?r (node_value ?nd)" by code_simp
  ultimately have f: "find (\<lambda>re. regexp_test re (node_value ?nd))
             (map (\<lambda>t. \<lparr>alts = [Items (boundary_aware Start t)], ignoreCase = True\<rparr>)
                               [''todo'', ''fixme'', ''xxx'']) = Some ?r" by simp
  have d: "\<not> (isDirectiveComment ?nd \<and> regexp_test selfConfigRegEx (node_value ?nd))" by code_simp
  have n: "trim (replace_empty (node_value ?nd) ?r) \<noteq> []" by code_simp
  show ?thesis
    using all e w f d n by auto
qed

section \<open>C7: the two alternatives of the location anywhere\<close>

text \<open>
  Claim C7. For every term and every engine: in the location \<open>anywhere\<close> the text of the
  pattern is the first alternative, a bar, and the second alternative. The first
  alternative is always a pattern. When the second is one too, whatever groups, classes
  or other constructs the term brings into it, the rule's pattern matches a comment
  exactly when one of the two does; when it is not, making the rule's pattern throws the
  same error. The second alternative holds the term as it was configured: in the term
  \<open>a.c\<close> the dot matches any character, so the comment \<open>axc: later\<close> matches, and the
  colon after the match stays in the message, whereas it is removed after the escaped
  term.
\<close>

theorem anywhere_is_alternation:
  "pattern_source Anywhere t = boundary_aware_source t @ ''|'' @ whole_word_source t
   \<and> (\<exists>a. RegExp_new host (boundary_aware_source t) True = Inr a)
   \<and> (RegExp_new host (boundary_aware_source t) True = Inr a \<and>
      RegExp_new host (whole_word_source t) True = Inr b
      \<longrightarrow> (\<exists>re. convertToRegExp host Anywhere t = Inr re \<and>
                (\<forall>c. regexp_test re c = (regexp_test a c \<or> regexp_test b c))))
   \<and> (RegExp_new host (whole_word_source t) True = Inl e \<longrightarrow> convertToRegExp host Anywhere t = Inl e)
   \<and> map_sum id (\<lambda>re. regexp_test re ''axc: later'') (RegExp_new host (boundary_aware_source ''a.c'') True)
       = Inr False
   \<and> map_sum id (\<lambda>re. regexp_test re ''axc: later'') (RegExp_new host (whole_word_source ''a.c'') True)
       = Inr True
   \<and> map_sum id (replace_empty ''axc: later'') (convertToRegExp host Anywhere ''a.c'') = Inr '': later''
   \<and> map_sum id (replace_empty ''a.c: later'') (convertToRegExp host Anywhere ''a.c'') = Inr '' later''"
proof (intro conjI impI)
  show "pattern_source Anywhere t = boundary_aware_source t @ ''|'' @ whole_word_source t"
    by (simp add: pattern_source_Anywhere boundary_aware_source_def whole_word_source_def)
  have first: "RegExp_new host (boundary_aware_source t) True =
      Inr \<lparr>alts = [Items (boundary_aware Anywhere t)], ignoreCase = True\<rparr>"
    by (simp add: RegExp_new_def boundary_aware_source_def compile_boundary_aware)
  then show "\<exists>a. RegExp_new host (boundary_aware_source t) True = Inr a" by blast
  {
    assume h: "RegExp_new host (boundary_aware_source t) True = Inr a \<and>
      RegExp_new host (whole_word_source t) True = Inr b"
    then have a: "a = \<lparr>alts = [Items (boundary_aware Anywhere t)], ignoreCase = True\<rparr>"
      using first by simp
    obtain y where y: "compile host True (esc ''b'' @ t @ esc ''b'') = Some y"
      and b: "b = \<lparr>alts = y, ignoreCase = True\<rparr>"
      using h by (auto simp: RegExp_new_def whole_word_source_def split: option.splits)
    have "convertToRegExp host Anywhere t = Inr \<lparr>alts = [Items (boundary_aware Anywhere t)] @ y, ignoreCase = True\<rparr>"
      using y by (simp add: convertToRegExp_def RegExp_new_def compile_Anywhere)
    then show "\<exists>re. convertToRegExp host Anywhere t = Inr re \<and>
                (\<forall>c. regexp_test re c = (regexp_test a c \<or> regexp_test b c))"
      using a b test_alternation [of "[Items (boundary_aware Anywhere t)]" y True] by simp
  }
  {
    assume "RegExp_new host (whole_word_source t) True = Inl e"
    then have "compile host True (esc ''b'' @ t @ esc ''b'') = None" "e = SyntaxError"
      by (auto simp: RegExp_new_def whole_word_source_def split: option.splits)
    then show "convertToRegExp host Anywhere t = Inl e"
      by (simp add: convertToRegExp_def RegExp_new_def compile_Anywhere)
  }
  show "map_sum id (\<lambda>re. regexp_test re ''axc: later'') (RegExp_new host (boundary_aware_source ''a.c'') True)
       = Inr False"
    by code_simp
  show "map_sum id (\<lambda>re. regexp_test re ''axc: later'') (RegExp_new host (whole_word_source ''a.c'') True)
       = Inr True"
    by code_simp
  show "map_sum id (replace_empty ''axc: later'') (convertToRegExp host Anywhere ''a.c'') = Inr '': later''"
    by code_simp
  show "map_sum id (replace_empty ''a.c: later'') (convertToRegExp host Anywhere ''a.c'') = Inr '' later''"
    by code_simp
qed

theorem anywhere_is_alternation_witness:
  "(\<exists>re. convertToRegExp todo_host Anywhere ''(todo)'' = Inr re \<and>
      (\<forall>c. regexp_test re c =
         (regexp_test \<lparr>alts = [Items (boundary_aware Anywhere ''(todo)'')], ignoreCase = True\<rparr> c \<or>
          regexp_test \<lparr>alts = [Beyond (m_items True (whole_word ''todo''))], ignoreCase = True\<rparr> c)))
   \<and> map_sum id (replace_empty '' todo: later'') (convertToRegExp todo_host Anywhere ''(todo)'')
       = Inr '' : later''
   \<and> convertToRegExp todo_host Anywhere ''('' = Inl SyntaxError"
proof -
  have a: "RegExp_new todo_host (boundary_aware_source ''(todo)'') True =
      Inr \<lparr>alts = [Items (boundary_aware Anywhere ''(todo)'')], ignoreCase = True\<rparr>"
    by (simp add: RegExp_new_def boundary_aware_source_def compile_boundary_aware)
  have b: "RegExp_new todo_host (whole_word_source ''(todo)'') True =
      Inr \<lparr>alts = [Beyond (m_items True (whole_word ''todo''))], ignoreCase = True\<rparr>"
    by (simp add: RegExp_new_def compile_def whole_word_source_def isSyntaxChar_def cons_first_def
        read_alt_def tok_atom_def has_group_def todo_host_def)
  have c: "RegExp_new todo_host (whole_word_source ''('') True = Inl SyntaxError"
    by (simp add: RegExp_new_def compile_def whole_word_source_def isSyntaxChar_def cons_first_def)
  have d: "map_sum id (replace_empty '' todo: later'') (convertToRegExp todo_host Anywhere ''(todo)'')
       = Inr '' : later''"
    by code_simp
  show ?thesis
    using anywhere_is_alternation [where host = todo_host and t = "''(todo)''"
        and a = "\<lparr>alts = [Items (boundary_aware Anywhere ''(todo)'')], ignoreCase = True\<rparr>"
        and b = "\<lparr>alts = [Beyond (m_items True (whole_word ''todo''))], ignoreCase = True\<rparr>"]
      anywhere_is_alternation [where host = todo_host and t = "''(''" and e = SyntaxError]
      a b c d by blast
qed

section \<open>C8: terms that end in punctuation\<close>

text \<open>
  Claim C8. For a term whose last character is not a word character the suffix rule is
  only the optional colon, with no word boundary before it, and the pattern of the
  location \<open>start\<close> matches every comment that is whitespace, the term, and any text at
  all. In particular the term \<open>FIX!\<close> matches the comment \<open>FIX! blah\<close>.
\<close>

theorem no_boundary_after_punctuation:
  "(t \<noteq> [] \<and> \<not> isWordChar (last t) \<and> list_all isWhiteSpace ws
    \<longrightarrow> suffix_rule t = '':?'' \<and>
        (\<exists>re. convertToRegExp host Start t = Inr re \<and> regexp_test re (ws @ t @ rest)))
   \<and> (\<exists>re. convertToRegExp host Start ''FIX!'' = Inr re \<and> regexp_test re ''FIX! blah'')"
proof (intro conjI impI)
  assume h: "t \<noteq> [] \<and> \<not> isWordChar (last t) \<and> list_all isWhiteSpace ws"
  then have nb: "\<not> word_before t" by (simp add: word_before_def)
  then show "suffix_rule t = '':?''"
    by (simp add: suffix_rule_def test_word_at_end)
  show "\<exists>re. convertToRegExp host Start t = Inr re \<and> regexp_test re (ws @ t @ rest)"
    using start_matches [of ws t t rest] h nb by (simp add: convertToRegExp_Start)
next
  have "\<not> word_before ''FIX!''" by code_simp
  then have "regexp_test \<lparr>alts = [Items (boundary_aware Start ''FIX!'')], ignoreCase = True\<rparr> ([] @ ''FIX!'' @ '' blah'')"
    by (intro start_matches) simp_all
  then show "\<exists>re. convertToRegExp host Start ''FIX!'' = Inr re \<and> regexp_test re ''FIX! blah''"
    by (simp add: convertToRegExp_Start)
qed

theorem no_boundary_after_punctuation_witness:
  "suffix_rule ''XXX!!'' = '':?'' \<and>
   (\<exists>re. convertToRegExp todo_host Start ''XXX!!'' = Inr re \<and> regexp_test re ('' '' @ ''XXX!!'' @ ''now''))"
proof -
  have h: "''XXX!!'' \<noteq> [] \<and> \<not> isWordChar (last ''XXX!!'') \<and> list_all isWhiteSpace '' ''"
    by code_simp
  show ?thesis
    using no_boundary_after_punctuation [where t = "''XXX!!''" and ws = "'' ''" and rest = "''now''"
        and host = todo_host] h
    by blast
qed

section \<open>C9: the directive that switches the rule off\<close>

text \<open>
  Claim C9. A single-line comment whose text, trimmed, starts with \<open>eslint-\<close> and which
  contains the token \<open>no-warning-comments\<close> is never reported, whatever the terms, the
  location and the tracker are.
\<close>

theorem own_directive_not_reported:
  "node_type nd = Line \<and> indexOf_is_0 (trim (node_value nd)) ''eslint-'' \<and>
   contains_token (node_value nd) ''no-warning-comments''
   \<longrightarrow> checkComment eng nd = None \<and> Program eng [nd] = []"
proof
  assume h: "node_type nd = Line \<and> indexOf_is_0 (trim (node_value nd)) ''eslint-'' \<and>
   contains_token (node_value nd) ''no-warning-comments''"
  then have "isDirectiveComment nd"
    by (simp add: isDirectiveComment_def)
  then have "checkComment eng nd = None"
    using h by (simp add: checkComment_def selfConfigRegEx_test)
  then show "checkComment eng nd = None \<and> Program eng [nd] = []"
    by (simp add: Program_def)
qed

theorem own_directive_not_reported_witness:
  "checkComment \<lparr>warningRegExps = [\<lparr>alts = [Items (whole_word ''eslint'')], ignoreCase = True\<rparr>],
                  repoUrlRegEx = None\<rparr>
     \<lparr>node_type = Line, node_value = '' eslint-disable-next-line no-warning-comments''\<rparr> = None"
proof -
  let ?nd = "\<lparr>node_type = Line, node_value = '' eslint-disable-next-line no-warning-comments''\<rparr>"
  have h: "node_type ?nd = Line \<and> indexOf_is_0 (trim (node_value ?nd)) ''eslint-'' \<and>
           contains_token (node_value ?nd) ''no-warning-comments''"
    by code_simp
  show ?thesis
    using own_directive_not_reported [of ?nd] h by blast
qed

section \<open>C10: a match with nothing after it\<close>

text \<open>
  Claim C10. When what is left of a comment, once the first match is removed and the
  rest trimmed, is empty, nothing is reported: the message is the empty string, which
  \<open>checkComment\<close> takes for false. So the comments \<open>// TODO\<close> and \<open>// TODO:\<close> are
  not reported, though the term matches and there is no tracker.
\<close>

theorem empty_remainder_not_reported:
  "(find (\<lambda>re. regexp_test re (node_value nd)) (warningRegExps eng) = Some r \<and>
    trim (replace_empty (node_value nd) r) = []
    \<longrightarrow> checkComment eng nd = None)
   \<and> run_rule host (Some \<lparr>terms = Some [''todo''], location = Some Start, url = None\<rparr>)
        (Inr (JObj [(''packageJson'', JObj [])]))
        [\<lparr>node_type = Line, node_value = '' TODO''\<rparr>, \<lparr>node_type = Line, node_value = '' TODO:''\<rparr>]
      = Inr []"
proof (intro conjI impI)
  assume h: "find (\<lambda>re. regexp_test re (node_value nd)) (warningRegExps eng) = Some r \<and>
    trim (replace_empty (node_value nd) r) = []"
  show "checkComment eng nd = None"
  proof (cases "commentHasIssue eng (node_value nd)")
    case True
    then show ?thesis
      by (simp add: checkComment_def getUndocumentedTodoMessage_def firstUndocumented_exempt)
  next
    case False
    then have "getUndocumentedTodoMessage eng (node_value nd) = Some []"
      using h firstUndocumented_find [of eng "node_value nd" "warningRegExps eng"]
      by (simp add: getUndocumentedTodoMessage_def ellipsize_def)
    then show ?thesis by (simp add: checkComment_def)
  qed
next
  show "run_rule host (Some \<lparr>terms = Some [''todo''], location = Some Start, url = None\<rparr>)
        (Inr (JObj [(''packageJson'', JObj [])]))
        [\<lparr>node_type = Line, node_value = '' TODO''\<rparr>, \<lparr>node_type = Line, node_value = '' TODO:''\<rparr>]
      = Inr []"
    by code_simp
qed

theorem empty_remainder_not_reported_witness:
  "checkComment
     \<lparr>warningRegExps = [\<lparr>alts = [Items (boundary_aware Start ''fixme'')], ignoreCase = True\<rparr>], repoUrlRegEx = None\<rparr>
     \<lparr>node_type = Block, node_value = ''  FixMe:  ''\<rparr> = None"
proof -
  let ?re = "\<lparr>alts = [Items (boundary_aware Start ''fixme'')], ignoreCase = True\<rparr>"
  let ?eng = "\<lparr>warningRegExps = [?re], repoUrlRegEx = None\<rparr>"
  let ?nd = "\<lparr>node_type = Block, node_value = ''  FixMe:  ''\<rparr>"
  have "regexp_test ?re (node_value ?nd)" by code_simp
  moreover have "trim (replace_empty (node_value ?nd) ?re) = []" by code_simp
  ultimately have h: "find (\<lambda>re. regexp_test re (node_value ?nd)) (warningRegExps ?eng) = Some ?re \<and>
    trim (replace_empty (node_value ?nd) ?re) = []" by simp
  show ?thesis
    using empty_remainder_not_reported [of ?nd ?eng ?re] h by blast
qed

end
